theory Spec2Isabelle
  imports Main "HOL-Library.Word" "HOL-Library.Stream" "HOL-Library.Sublist"
begin

unbundle bit_operations_syntax

section \<open>Data model\<close>

text \<open>
  A shallow embedding of \<^verbatim>\<open>fuzzer_zip.py\<close>. A \<^verbatim>\<open>bytes\<close> or \<^verbatim>\<open>bytearray\<close> value is a
  list of 8-bit words; Python integers are \<open>int\<close>. The working \<^verbatim>\<open>bytearray\<close> of a
  strategy is passed from step to step and returned.

  The \<^verbatim>\<open>random\<close> module and \<^verbatim>\<open>os.urandom\<close> are one stream of raw draws (natural
  numbers). Every primitive maps the next raw draw onto its own range, so every value
  that the Python call can return is returned for some stream, and each theorem that
  quantifies over the stream covers every run.
\<close>

type_synonym byte = "8 word"
type_synonym rng = "nat stream"

datatype py_error = ValueError | IndexError | OSError | FileNotFoundError

text \<open>
  The result of running a piece of code on the working buffer: it returns, or it raises.
  An exception carries the buffer and the random state as they are at the \<^verbatim>\<open>raise\<close>,
  since the handler of \<^verbatim>\<open>mutate_zip_structure\<close> goes on with both.
\<close>

datatype outcome = Return "byte list" rng | Raise py_error "byte list" rng

definition len :: "byte list \<Rightarrow> int" where
  "len data = int (length data)"

text \<open>\<^verbatim>\<open>data[a:b]\<close> for \<open>0 \<le> a\<close> (the scans only slice at positions counted up from 0).\<close>

definition slice :: "byte list \<Rightarrow> int \<Rightarrow> int \<Rightarrow> byte list" where
  "slice data a b = take (nat (b - a)) (drop (nat a) data)"

text \<open>\<^verbatim>\<open>data[i]\<close>: a negative index counts from the end, an index out of range raises.\<close>

definition getitem :: "byte list \<Rightarrow> int \<Rightarrow> py_error + int" where
  "getitem data i =
     (let n = len data; j = (if i < 0 then n + i else i)
      in if 0 \<le> j \<and> j < n then Inr (uint (data ! nat j)) else Inl IndexError)"

text \<open>
  \<^verbatim>\<open>data[i] = v\<close> on a \<^verbatim>\<open>bytearray\<close>: a value outside \<^verbatim>\<open>range(256)\<close> raises
  \<^verbatim>\<open>ValueError\<close>, an index out of range raises \<^verbatim>\<open>IndexError\<close>.
\<close>

definition setitem :: "byte list \<Rightarrow> int \<Rightarrow> int \<Rightarrow> py_error + byte list" where
  "setitem data i v =
     (if v < 0 \<or> 255 < v then Inl ValueError
      else let n = len data; j = (if i < 0 then n + i else i)
           in if 0 \<le> j \<and> j < n then Inr (data[nat j := word_of_int v]) else Inl IndexError)"

subsection \<open>Random primitives\<close>

text \<open>\<^verbatim>\<open>random.randint(a, b)\<close>: a value of \<open>[a, b]\<close>; \<^verbatim>\<open>ValueError\<close> on an empty range.\<close>

definition randint :: "int \<Rightarrow> int \<Rightarrow> rng \<Rightarrow> py_error + (int \<times> rng)" where
  "randint a b g =
     (if b < a then Inl ValueError else Inr (a + int (shd g) mod (b - a + 1), stl g))"

text \<open>
  \<^verbatim>\<open>random.random() < p\<close> with \<open>p\<close> given in hundredths. Only the branch taken matters
  to the code, and both branches are reachable.
\<close>

definition random_lt :: "nat \<Rightarrow> rng \<Rightarrow> bool \<times> rng" where
  "random_lt pct g = (shd g mod 100 < pct, stl g)"

text \<open>\<^verbatim>\<open>random.choice(seq)\<close>: \<^verbatim>\<open>IndexError\<close> on an empty sequence.\<close>

definition choice :: "'a list \<Rightarrow> rng \<Rightarrow> py_error + ('a \<times> rng)" where
  "choice xs g =
     (if xs = [] then Inl IndexError else Inr (xs ! (shd g mod length xs), stl g))"

text \<open>\<^verbatim>\<open>os.urandom(n)\<close>: \<open>n\<close> bytes; \<^verbatim>\<open>ValueError\<close> on a negative \<open>n\<close>.\<close>

definition urandom :: "int \<Rightarrow> rng \<Rightarrow> py_error + (byte list \<times> rng)" where
  "urandom n g =
     (if n < 0 then Inl ValueError
      else Inr (map of_nat (stake (nat n) g), sdrop (nat n) g))"

subsection \<open>Container signatures\<close>

definition local_sig :: "byte list" where
  "local_sig = [0x50, 0x4B, 0x03, 0x04]"

definition central_sig :: "byte list" where
  "central_sig = [0x50, 0x4B, 0x01, 0x02]"

section \<open>Mutation engine\<close>

subsection \<open>Local-header and central-directory corruption\<close>

text \<open>
  The inner loop of both scans, \<^verbatim>\<open>for i in range(4, header_size)\<close>: with the given
  probability the byte at \<open>pos + i\<close> is overwritten by a fresh random byte.
\<close>

fun corrupt_header_bytes :: "nat \<Rightarrow> int \<Rightarrow> int list \<Rightarrow> byte list \<Rightarrow> rng \<Rightarrow> outcome" where
  "corrupt_header_bytes pct pos [] data g = Return data g"
| "corrupt_header_bytes pct pos (i # is) data g =
     (case random_lt pct g of
        (hit, g1) \<Rightarrow>
          if hit then
            (case randint 0 255 g1 of
               Inl e \<Rightarrow> Raise e data g1
             | Inr (v, g2) \<Rightarrow>
                 (case setitem data (pos + i) v of
                    Inl e \<Rightarrow> Raise e data g2
                  | Inr data' \<Rightarrow> corrupt_header_bytes pct pos is data' g2))
          else corrupt_header_bytes pct pos is data g1)"

lemma setitem_length: "setitem data i v = Inr d \<Longrightarrow> length d = length data"
  by (auto simp: setitem_def Let_def split: if_splits)

lemma corrupt_header_bytes_length:
  "corrupt_header_bytes pct pos is data g = Return d g' \<Longrightarrow> length d = length data"
proof (induction "is" arbitrary: data g)
  case Nil
  then show ?case by simp
next
  case (Cons i "is")
  then show ?case
    by (auto split: prod.splits if_splits sum.splits dest: setitem_length)
qed

function local_headers_loop :: "int \<Rightarrow> byte list \<Rightarrow> rng \<Rightarrow> outcome" where
  "local_headers_loop pos data g =
     (if pos < len data - 4 then
        (if slice data pos (pos + 4) = local_sig then
           (let header_size = min 30 (len data - pos)
            in case corrupt_header_bytes 40 pos [4..header_size - 1] data g of
                 Raise e d g' \<Rightarrow> Raise e d g'
               | Return d g' \<Rightarrow> local_headers_loop (pos + header_size + 1) d g')
         else local_headers_loop (pos + 1) data g)
      else Return data g)"
  by pat_completeness auto
termination
  by (relation "measure (\<lambda>(pos, data, g). nat (len data - pos))")
     (auto simp: len_def dest: corrupt_header_bytes_length)

definition corrupt_local_headers :: "byte list \<Rightarrow> rng \<Rightarrow> outcome" where
  "corrupt_local_headers data g = local_headers_loop 0 data g"

function central_directory_loop :: "int \<Rightarrow> byte list \<Rightarrow> rng \<Rightarrow> outcome" where
  "central_directory_loop pos data g =
     (if pos < len data - 4 then
        (if slice data pos (pos + 4) = central_sig then
           (let header_size = min 46 (len data - pos)
            in case corrupt_header_bytes 30 pos [4..header_size - 1] data g of
                 Raise e d g' \<Rightarrow> Raise e d g'
               | Return d g' \<Rightarrow> central_directory_loop (pos + header_size + 1) d g')
         else central_directory_loop (pos + 1) data g)
      else Return data g)"
  by pat_completeness auto
termination
  by (relation "measure (\<lambda>(pos, data, g). nat (len data - pos))")
     (auto simp: len_def dest: corrupt_header_bytes_length)

definition corrupt_central_directory :: "byte list \<Rightarrow> rng \<Rightarrow> outcome" where
  "corrupt_central_directory data g = central_directory_loop 0 data g"

subsection \<open>Compression-method mutation\<close>

definition method_codes :: "int list" where
  "method_codes = [0, 1, 8, 9, 12, 14, 96, 99, 255]"

function compression_methods_loop :: "byte list \<Rightarrow> int \<Rightarrow> byte list \<Rightarrow> rng \<Rightarrow> outcome" where
  "compression_methods_loop signature pos data g =
     (if pos < len data - 8 then
        (if slice data pos (pos + 4) = signature then
           (if pos + 8 < len data then
              (case choice method_codes g of
                 Inl e \<Rightarrow> Raise e data g
               | Inr (v, g1) \<Rightarrow>
                   (case setitem data (pos + 8) v of
                      Inl e \<Rightarrow> Raise e data g1
                    | Inr d \<Rightarrow> compression_methods_loop signature (pos + 1) d g1))
            else compression_methods_loop signature (pos + 1) data g)
         else compression_methods_loop signature (pos + 1) data g)
      else Return data g)"
  by pat_completeness auto
termination
  by (relation "measure (\<lambda>(signature, pos, data, g). nat (len data - pos))")
     (auto simp: len_def dest: setitem_length)

text \<open>\<^verbatim>\<open>for signature in [local_sig, central_sig]\<close>, each scan starting at \<open>pos = 0\<close>.\<close>

fun for_signatures ::
  "(byte list \<Rightarrow> int \<Rightarrow> byte list \<Rightarrow> rng \<Rightarrow> outcome) \<Rightarrow> byte list list \<Rightarrow> byte list \<Rightarrow> rng \<Rightarrow> outcome"
where
  "for_signatures scan [] data g = Return data g"
| "for_signatures scan (signature # sigs) data g =
     (case scan signature 0 data g of
        Raise e d g' \<Rightarrow> Raise e d g'
      | Return d g' \<Rightarrow> for_signatures scan sigs d g')"

definition mutate_compression_methods :: "byte list \<Rightarrow> rng \<Rightarrow> outcome" where
  "mutate_compression_methods data g =
     for_signatures compression_methods_loop [local_sig, central_sig] data g"

subsection \<open>Checksum corruption\<close>

text \<open>\<^verbatim>\<open>for i in range(4): data[pos + crc_offset + i] = random.randint(0, 255)\<close>\<close>

fun store_random_bytes :: "int \<Rightarrow> int list \<Rightarrow> byte list \<Rightarrow> rng \<Rightarrow> outcome" where
  "store_random_bytes base [] data g = Return data g"
| "store_random_bytes base (i # is) data g =
     (case randint 0 255 g of
        Inl e \<Rightarrow> Raise e data g
      | Inr (v, g1) \<Rightarrow>
          (case setitem data (base + i) v of
             Inl e \<Rightarrow> Raise e data g1
           | Inr d \<Rightarrow> store_random_bytes base is d g1))"

lemma store_random_bytes_length:
  "store_random_bytes base is data g = Return d g' \<Longrightarrow> length d = length data"
proof (induction "is" arbitrary: data g)
  case Nil
  then show ?case by simp
next
  case (Cons i "is")
  then show ?case
    by (auto split: sum.splits dest: setitem_length)
qed

function crc_values_loop :: "byte list \<Rightarrow> int \<Rightarrow> byte list \<Rightarrow> rng \<Rightarrow> outcome" where
  "crc_values_loop signature pos data g =
     (if pos < len data - 16 then
        (if slice data pos (pos + 4) = signature then
           (let crc_offset = (if signature = local_sig then 14 else 16)
            in if pos + crc_offset + 4 < len data then
                 (case store_random_bytes (pos + crc_offset) [0..3] data g of
                    Raise e d g' \<Rightarrow> Raise e d g'
                  | Return d g' \<Rightarrow> crc_values_loop signature (pos + 1) d g')
               else crc_values_loop signature (pos + 1) data g)
         else crc_values_loop signature (pos + 1) data g)
      else Return data g)"
  by pat_completeness auto
termination
  by (relation "measure (\<lambda>(signature, pos, data, g). nat (len data - pos))")
     (auto simp: len_def dest: store_random_bytes_length)

definition corrupt_crc_values :: "byte list \<Rightarrow> rng \<Rightarrow> outcome" where
  "corrupt_crc_values data g =
     for_signatures crc_values_loop [local_sig, central_sig] data g"

subsection \<open>Size-field corruption\<close>

text \<open>\<^verbatim>\<open>for i in range(4): data[base + i] = (value >> (i * 8)) & 0xFF\<close>\<close>

fun store_le_bytes :: "int \<Rightarrow> int \<Rightarrow> int list \<Rightarrow> byte list \<Rightarrow> rng \<Rightarrow> outcome" where
  "store_le_bytes base value [] data g = Return data g"
| "store_le_bytes base value (i # is) data g =
     (case setitem data (base + i) (drop_bit (nat (i * 8)) value AND 0xFF) of
        Inl e \<Rightarrow> Raise e data g
      | Inr d \<Rightarrow> store_le_bytes base value is d g)"

text \<open>\<^verbatim>\<open>for offset in [18, 22]\<close>: each size field that fits gets its own 32-bit value.\<close>

fun size_fields :: "int \<Rightarrow> int list \<Rightarrow> byte list \<Rightarrow> rng \<Rightarrow> outcome" where
  "size_fields pos [] data g = Return data g"
| "size_fields pos (offset # offsets) data g =
     (if pos + offset + 4 < len data then
        (case randint 0 0xFFFFFFFF g of
           Inl e \<Rightarrow> Raise e data g
         | Inr (size', g1) \<Rightarrow>
             (case store_le_bytes (pos + offset) size' [0..3] data g1 of
                Raise e d g' \<Rightarrow> Raise e d g'
              | Return d g' \<Rightarrow> size_fields pos offsets d g'))
      else size_fields pos offsets data g)"

lemma store_le_bytes_length:
  "store_le_bytes base value is data g = Return d g' \<Longrightarrow> length d = length data"
proof (induction "is" arbitrary: data)
  case Nil
  then show ?case by simp
next
  case (Cons i "is")
  then show ?case
    by (auto split: sum.splits dest: setitem_length)
qed

lemma size_fields_length:
  "size_fields pos offsets data g = Return d g' \<Longrightarrow> length d = length data"
proof (induction offsets arbitrary: data g)
  case Nil
  then show ?case by simp
next
  case (Cons offset offsets)
  then show ?case
    by (auto split: sum.splits outcome.splits if_splits dest: store_le_bytes_length)
qed

function file_sizes_loop :: "int \<Rightarrow> byte list \<Rightarrow> rng \<Rightarrow> outcome" where
  "file_sizes_loop pos data g =
     (if pos < len data - 26 then
        (if slice data pos (pos + 4) = local_sig then
           (case size_fields pos [18, 22] data g of
              Raise e d g' \<Rightarrow> Raise e d g'
            | Return d g' \<Rightarrow> file_sizes_loop (pos + 30 + 1) d g')
         else file_sizes_loop (pos + 1) data g)
      else Return data g)"
  by pat_completeness auto
termination
  by (relation "measure (\<lambda>(pos, data, g). nat (len data - pos))")
     (auto simp: len_def simp del: size_fields.simps dest: size_fields_length)

definition mutate_file_sizes :: "byte list \<Rightarrow> rng \<Rightarrow> outcome" where
  "mutate_file_sizes data g = file_sizes_loop 0 data g"

subsection \<open>Header injection\<close>

definition headers :: "byte list list" where
  "headers =
     [local_sig, central_sig, [0x50, 0x4B, 0x05, 0x06],
      [0x50, 0x4B, 0x06, 0x07], [0x50, 0x4B, 0x07, 0x08], [0x50, 0x4B, 0x08, 0x07]]"

text \<open>
  \<^verbatim>\<open>new_data[position:position] = header + extra_data\<close> inserts before \<open>position\<close>, which
  is drawn from \<open>[0, len(data)]\<close>.
\<close>

definition inject_random_headers :: "byte list \<Rightarrow> rng \<Rightarrow> outcome" where
  "inject_random_headers data g =
     (if len data < 5000 then
        (case choice headers g of
           Inl e \<Rightarrow> Raise e data g
         | Inr (header, g1) \<Rightarrow>
             (case randint 0 (len data) g1 of
                Inl e \<Rightarrow> Raise e data g1
              | Inr (position, g2) \<Rightarrow>
                  (case randint 10 100 g2 of
                     Inl e \<Rightarrow> Raise e data g2
                   | Inr (n, g3) \<Rightarrow>
                       (case urandom n g3 of
                          Inl e \<Rightarrow> Raise e data g3
                        | Inr (extra_data, g4) \<Rightarrow>
                            Return (take (nat position) data @ (header @ extra_data)
                                      @ drop (nat position) data) g4))))
      else Return data g)"

subsection \<open>Bit flip\<close>

text \<open>
  \<^verbatim>\<open>for _ in range(num_mutations)\<close>: one random bit of one random byte is flipped,
  \<^verbatim>\<open>data[pos] ^= 1 << random.randint(0, 7)\<close>.
\<close>

fun bit_flip_loop :: "nat \<Rightarrow> byte list \<Rightarrow> rng \<Rightarrow> outcome" where
  "bit_flip_loop 0 data g = Return data g"
| "bit_flip_loop (Suc n) data g =
     (if len data = 0 then Return data g
      else
        (case randint 0 (len data - 1) g of
           Inl e \<Rightarrow> Raise e data g
         | Inr (pos, g1) \<Rightarrow>
             (case randint 0 7 g1 of
                Inl e \<Rightarrow> Raise e data g1
              | Inr (k, g2) \<Rightarrow>
                  (let bit_mask = push_bit (nat k) 1
                   in case getitem data pos of
                        Inl e \<Rightarrow> Raise e data g2
                      | Inr b \<Rightarrow>
                          (case setitem data pos (b XOR bit_mask) of
                             Inl e \<Rightarrow> Raise e data g2
                           | Inr d \<Rightarrow> bit_flip_loop n d g2)))))"

definition bit_flip_mutation :: "byte list \<Rightarrow> rng \<Rightarrow> outcome" where
  "bit_flip_mutation data g =
     (case randint 1 (min 100 (len data div 10)) g of
        Inl e \<Rightarrow> Raise e data g
      | Inr (num_mutations, g1) \<Rightarrow> bit_flip_loop (nat num_mutations) data g1)"

subsection \<open>Boundary-value substitution\<close>

definition boundary_values :: "int list" where
  "boundary_values = [0x00, 0xFF, 0x7F, 0x80, 0xFFFF, 0xFFFFFFFF]"

text \<open>
  \<^verbatim>\<open>for j in range(min(4, length - i)): if pos + i + j < len(data): ...\<close>, with
  \<open>base = pos + i\<close>.
\<close>

fun store_le_guarded :: "int \<Rightarrow> int \<Rightarrow> int list \<Rightarrow> byte list \<Rightarrow> rng \<Rightarrow> outcome" where
  "store_le_guarded base value [] data g = Return data g"
| "store_le_guarded base value (j # js) data g =
     (if base + j < len data then
        (case setitem data (base + j) (drop_bit (nat (j * 8)) value AND 0xFF) of
           Inl e \<Rightarrow> Raise e data g
         | Inr d \<Rightarrow> store_le_guarded base value js d g)
      else store_le_guarded base value js data g)"

text \<open>\<^verbatim>\<open>for i in range(length): if pos + i < len(data): ...\<close>\<close>

fun boundary_run :: "int \<Rightarrow> int \<Rightarrow> int list \<Rightarrow> byte list \<Rightarrow> rng \<Rightarrow> outcome" where
  "boundary_run pos length' [] data g = Return data g"
| "boundary_run pos length' (i # is) data g =
     (if pos + i < len data then
        (case choice boundary_values g of
           Inl e \<Rightarrow> Raise e data g
         | Inr (value, g1) \<Rightarrow>
             (case store_le_guarded (pos + i) value [0..min 4 (length' - i) - 1] data g1 of
                Raise e d g' \<Rightarrow> Raise e d g'
              | Return d g' \<Rightarrow> boundary_run pos length' is d g'))
      else boundary_run pos length' is data g)"

text \<open>
  \<^verbatim>\<open>for _ in range(num_mutations)\<close>. The multi-byte branch ends with \<^verbatim>\<open>break\<close>, so
  the loop is left after it.
\<close>

fun boundary_loop :: "nat \<Rightarrow> byte list \<Rightarrow> rng \<Rightarrow> outcome" where
  "boundary_loop 0 data g = Return data g"
| "boundary_loop (Suc n) data g =
     (case randint 0 (len data - 1) g of
        Inl e \<Rightarrow> Raise e data g
      | Inr (pos, g1) \<Rightarrow>
          (case random_lt 30 g1 of
             (single, g2) \<Rightarrow>
               if single then
                 (case choice boundary_values g2 of
                    Inl e \<Rightarrow> Raise e data g2
                  | Inr (c, g3) \<Rightarrow>
                      (let value = c AND 0xFF
                       in case setitem data pos value of
                            Inl e \<Rightarrow> Raise e data g3
                          | Inr d \<Rightarrow> boundary_loop n d g3))
               else
                 (case randint 2 (min 8 (len data - pos)) g2 of
                    Inl e \<Rightarrow> Raise e data g2
                  | Inr (length', g3) \<Rightarrow> boundary_run pos length' [0..length' - 1] data g3)))"

definition boundary_value_mutation :: "byte list \<Rightarrow> rng \<Rightarrow> outcome" where
  "boundary_value_mutation data g =
     (if len data > 10 then
        (case randint 1 20 g of
           Inl e \<Rightarrow> Raise e data g
         | Inr (num_mutations, g1) \<Rightarrow> boundary_loop (nat num_mutations) data g1)
      else Return data g)"

subsection \<open>Run-length corruption\<close>

text \<open>\<^verbatim>\<open>for i in range(length): if start_pos + i < len(data): data[start_pos + i] = pattern\<close>\<close>

fun fill_pattern :: "int \<Rightarrow> int \<Rightarrow> int list \<Rightarrow> byte list \<Rightarrow> rng \<Rightarrow> outcome" where
  "fill_pattern start_pos pattern [] data g = Return data g"
| "fill_pattern start_pos pattern (i # is) data g =
     (if start_pos + i < len data then
        (case setitem data (start_pos + i) pattern of
           Inl e \<Rightarrow> Raise e data g
         | Inr d \<Rightarrow> fill_pattern start_pos pattern is d g)
      else fill_pattern start_pos pattern is data g)"

definition repeat_byte_mutation :: "byte list \<Rightarrow> rng \<Rightarrow> outcome" where
  "repeat_byte_mutation data g =
     (if len data > 20 then
        (case randint 0 255 g of
           Inl e \<Rightarrow> Raise e data g
         | Inr (pattern, g1) \<Rightarrow>
             (case randint 0 (len data - 10) g1 of
                Inl e \<Rightarrow> Raise e data g1
              | Inr (start_pos, g2) \<Rightarrow>
                  (case randint 5 (min 50 (len data - start_pos)) g2 of
                     Inl e \<Rightarrow> Raise e data g2
                   | Inr (length', g3) \<Rightarrow>
                       fill_pattern start_pos pattern [0..length' - 1] data g3)))
      else Return data g)"

subsection \<open>Arithmetic corruption\<close>

definition arithmetic_mutation :: "byte list \<Rightarrow> rng \<Rightarrow> outcome" where
  "arithmetic_mutation data g =
     (if len data > 10 then
        (case randint 0 (len data - 1) g of
           Inl e \<Rightarrow> Raise e data g
         | Inr (pos, g1) \<Rightarrow>
             (case choice [''add'', ''sub'', ''mul''] g1 of
                Inl e \<Rightarrow> Raise e data g1
              | Inr (operation, g2) \<Rightarrow>
                  (case randint 1 255 g2 of
                     Inl e \<Rightarrow> Raise e data g2
                   | Inr (value, g3) \<Rightarrow>
                       (case getitem data pos of
                          Inl e \<Rightarrow> Raise e data g3
                        | Inr b \<Rightarrow>
                            (let new =
                               (if operation = ''add'' then Some ((b + value) AND 0xFF)
                                else if operation = ''sub'' then Some ((b - value) AND 0xFF)
                                else if operation = ''mul'' then Some ((b * value) AND 0xFF)
                                else None)
                             in case new of
                                  None \<Rightarrow> Return data g3
                                | Some v \<Rightarrow>
                                    (case setitem data pos v of
                                       Inl e \<Rightarrow> Raise e data g3
                                     | Inr d \<Rightarrow> Return d g3))))))
      else Return data g)"

subsection \<open>Strategy selection\<close>

datatype log_msg =
    MutationFailed py_error
  | TimeoutTesting int
  | ErrorTesting int
  | CrashDetected int
  | ErrorSavingCrash py_error
  | Progress int int
  | StoppingEarly
  | FuzzingError py_error
  | FuzzingCompleted int

text \<open>The strategy that \<^verbatim>\<open>mutation_type\<close> selects inside the \<^verbatim>\<open>try\<close> block.\<close>

definition strategy :: "int \<Rightarrow> byte list \<Rightarrow> rng \<Rightarrow> outcome" where
  "strategy mutation_type data g =
     (if mutation_type = 1 then corrupt_local_headers data g
      else if mutation_type = 2 then corrupt_central_directory data g
      else if mutation_type = 3 then mutate_compression_methods data g
      else if mutation_type = 4 then corrupt_crc_values data g
      else if mutation_type = 5 then mutate_file_sizes data g
      else if mutation_type = 6 then inject_random_headers data g
      else if mutation_type = 7 then bit_flip_mutation data g
      else if mutation_type = 8 then boundary_value_mutation data g
      else if mutation_type = 9 then repeat_byte_mutation data g
      else arithmetic_mutation data g)"

text \<open>
  \<^verbatim>\<open>mutate_zip_structure\<close>, with the messages it logs. The handler runs the bit-flip
  strategy on the working copy as the failed strategy left it; what the bit-flip
  strategy raises there is raised to the caller.
\<close>

definition mutate_zip_structure :: "byte list \<Rightarrow> rng \<Rightarrow> outcome \<times> log_msg list" where
  "mutate_zip_structure data g =
     (if len data = 0 then (Return data g, [])
      else
        (case randint 1 10 g of
           Inl e \<Rightarrow> (Raise e data g, [])
         | Inr (mutation_type, g1) \<Rightarrow>
             (case strategy mutation_type data g1 of
                Return d g' \<Rightarrow> (Return d g', [])
              | Raise e d g' \<Rightarrow> (bit_flip_mutation d g', [MutationFailed e]))))"

text \<open>
  The offsets at which a scan finds the local-entry-header signature
  (\<^verbatim>\<open>data[pos:pos + 4] == signature\<close>).
\<close>

definition local_header_offsets :: "byte list \<Rightarrow> nat list" where
  "local_header_offsets data =
     filter (\<lambda>pos. slice data (int pos) (int pos + 4) = local_sig) [0..<length data]"

subsection \<open>Comparing a buffer with its mutation\<close>



fun flip_bits :: "(nat \<times> nat) list \<Rightarrow> byte list \<Rightarrow> byte list" where
  "flip_bits [] data = data"
| "flip_bits ((pos, k) # flips) data =
     flip_bits flips (data[pos := data ! pos XOR push_bit k 1])"

subsection \<open>Outcomes\<close>

text \<open>
  The buffer an outcome carries (the returned one, or the working copy at the raise),
  whether the code returned, and whether it returned or raised the given exception.
\<close>

definition out_data :: "outcome \<Rightarrow> byte list" where
  "out_data r = (case r of Return d g \<Rightarrow> d | Raise e d g \<Rightarrow> d)"

definition returns :: "outcome \<Rightarrow> bool" where
  "returns r = (case r of Return d g \<Rightarrow> True | Raise e d g \<Rightarrow> False)"

definition raises_only :: "py_error \<Rightarrow> outcome \<Rightarrow> bool" where
  "raises_only e r = (case r of Return d g \<Rightarrow> True | Raise e' d g \<Rightarrow> e' = e)"

section \<open>Oracle adapter\<close>

record proc_result =
  returncode :: int
  stdout :: string
  stderr :: string

text \<open>
  What \<^verbatim>\<open>subprocess.run\<close> does is the environment's: it completes with a result,
  raises \<^verbatim>\<open>TimeoutExpired\<close> or raises another exception (the tool cannot be launched).
  The captured streams are taken as already decoded (decoding with
  \<^verbatim>\<open>errors='ignore'\<close> never raises).
\<close>

datatype tool_outcome = Completed proc_result | TimeoutExpired | LaunchFailure

definition crash_indicators :: "string list" where
  "crash_indicators =
     [''Exception'', ''Access violation'', ''Segmentation fault'', ''CRASH'',
      ''Stack overflow'', ''Heap corruption'', ''Fatal error'', ''Internal error'']"

text \<open>\<^verbatim>\<open>indicator in text\<close>: the indicator is a contiguous part of the text.\<close>

fun contains :: "string \<Rightarrow> string \<Rightarrow> bool" where
  "contains ind [] = (ind = [])"
| "contains ind (c # cs) = (prefix ind (c # cs) \<or> contains ind cs)"

definition analyze_7zip_result :: "proc_result option \<Rightarrow> bool" where
  "analyze_7zip_result process_result =
     (case process_result of
        None \<Rightarrow> True
      | Some p \<Rightarrow>
          if returncode p = 2 then True
          else if returncode p = 8 then True
          else if (\<exists>ind \<in> set crash_indicators. contains ind (stdout p))
                  \<or> (\<exists>ind \<in> set crash_indicators. contains ind (stderr p)) then True
          else False)"

definition run_7zip_test :: "tool_outcome \<Rightarrow> bool \<times> proc_result option" where
  "run_7zip_test t =
     (case t of
        Completed p \<Rightarrow> (analyze_7zip_result (Some p), Some p)
      | TimeoutExpired \<Rightarrow> (True, None)
      | LaunchFailure \<Rightarrow> (False, None))"

section \<open>Crash archiver and fuzzing loop\<close>

text \<open>
  What the loop does not decide is the environment's: what the tool does with the
  candidate of an iteration, and which file operations fail with \<^verbatim>\<open>OSError\<close> (writing
  the temporary file, creating the crash directory, writing the files of a crash
  record). An interruption from the keyboard is not modelled.
\<close>

record env =
  tool :: "int \<Rightarrow> byte list \<Rightarrow> tool_outcome"
  temp_write_fails :: "int \<Rightarrow> bool"
  makedirs_fails :: "int \<Rightarrow> bool"
  record_write_fails :: "int \<Rightarrow> bool"

text \<open>
  The fuzzer object with what it has changed outside itself: the state of \<^verbatim>\<open>random\<close>,
  the log, the crash directories created and the crash records written in full (both by
  iteration). \<open>verdicts\<close> keeps the verdict of every iteration that reached the tool;
  the code holds it in the local \<^verbatim>\<open>crash_detected\<close> only.
\<close>

record fuzzer =
  crash_count :: int
  iteration_count :: int
  rng_state :: rng
  log :: "log_msg list"
  verdicts :: "(int \<times> bool) list"
  crash_dirs :: "int list"
  crash_records :: "(int \<times> byte list \<times> proc_result option) list"

text \<open>
  \<^verbatim>\<open>save_crash\<close>. The counter is incremented first. \<^verbatim>\<open>os.makedirs\<close> stands before
  the \<^verbatim>\<open>try\<close>, so its failure is raised to the caller; a failure of a write inside
  the \<^verbatim>\<open>try\<close> is logged and the method returns.
\<close>

definition save_crash ::
  "env \<Rightarrow> int \<Rightarrow> byte list \<Rightarrow> proc_result option \<Rightarrow> fuzzer \<Rightarrow> py_error option \<times> fuzzer"
where
  "save_crash e iteration data process_result st =
     (let st1 = st\<lparr>crash_count := crash_count st + 1\<rparr>
      in if makedirs_fails e iteration then (Some OSError, st1)
         else
           (let st2 = st1\<lparr>crash_dirs := crash_dirs st1 @ [iteration]\<rparr>
            in if record_write_fails e iteration
               then (None, st2\<lparr>log := log st2 @ [ErrorSavingCrash OSError]\<rparr>)
               else (None, st2\<lparr>crash_records :=
                                   crash_records st2 @ [(iteration, data, process_result)],
                                 log := log st2 @ [CrashDetected iteration]\<rparr>)))"

definition print_stats :: "fuzzer \<Rightarrow> fuzzer" where
  "print_stats st = st\<lparr>log := log st @ [Progress (iteration_count st) (crash_count st)]\<rparr>"

text \<open>What \<^verbatim>\<open>run_7zip_test\<close> logs.\<close>

definition run_7zip_test_log :: "int \<Rightarrow> tool_outcome \<Rightarrow> log_msg list" where
  "run_7zip_test_log i t =
     (case t of
        Completed p \<Rightarrow> []
      | TimeoutExpired \<Rightarrow> [TimeoutTesting i]
      | LaunchFailure \<Rightarrow> [ErrorTesting i])"

datatype stop = Completed_all | EarlyLimit | Error py_error

text \<open>
  The body of the loop for iteration \<open>i\<close>: the new state, and why the loop is left
  (\<^verbatim>\<open>break\<close>, or an exception caught by the \<^verbatim>\<open>except Exception\<close> of \<^verbatim>\<open>fuzz\<close>) or
  \<open>None\<close> when it goes on.
\<close>

definition iteration :: "env \<Rightarrow> byte list \<Rightarrow> int \<Rightarrow> fuzzer \<Rightarrow> stop option \<times> fuzzer" where
  "iteration e base_data i st =
     (let st1 = st\<lparr>iteration_count := i\<rparr>
      in case mutate_zip_structure base_data (rng_state st1) of
           (Raise err d g', msgs) \<Rightarrow>
             (Some (Error err), st1\<lparr>rng_state := g', log := log st1 @ msgs\<rparr>)
         | (Return mutated_data g', msgs) \<Rightarrow>
             (let st2 = st1\<lparr>rng_state := g', log := log st1 @ msgs\<rparr>
              in if temp_write_fails e i then (Some (Error OSError), st2)
                 else
                   (case run_7zip_test (tool e i mutated_data) of
                      (crash_detected, process_result) \<Rightarrow>
                        (let st3 = st2\<lparr>log := log st2 @ run_7zip_test_log i (tool e i mutated_data),
                                       verdicts := verdicts st2 @ [(i, crash_detected)]\<rparr>
                         in case (if crash_detected
                                  then save_crash e i mutated_data process_result st3
                                  else (None, st3)) of
                              (Some err, st4) \<Rightarrow> (Some (Error err), st4)
                            | (None, st4) \<Rightarrow>
                                (let st5 = (if i mod 100 = 0 \<or> crash_detected
                                            then print_stats st4 else st4)
                                 in if crash_count st5 \<ge> 50
                                    then (Some EarlyLimit, st5\<lparr>log := log st5 @ [StoppingEarly]\<rparr>)
                                    else (None, st5))))))"

text \<open>\<^verbatim>\<open>for i in range(1, iterations + 1)\<close>\<close>

fun fuzz_loop :: "env \<Rightarrow> byte list \<Rightarrow> int list \<Rightarrow> fuzzer \<Rightarrow> stop \<times> fuzzer" where
  "fuzz_loop e base_data [] st = (Completed_all, st)"
| "fuzz_loop e base_data (i # is) st =
     (case iteration e base_data i st of
        (Some r, st') \<Rightarrow> (r, st')
      | (None, st') \<Rightarrow> fuzz_loop e base_data is st')"

text \<open>
  \<^verbatim>\<open>fuzz\<close>, from the loaded seed on: the loop, the handler of \<^verbatim>\<open>except Exception\<close>
  and the \<^verbatim>\<open>finally\<close> block.
\<close>

definition fuzz :: "env \<Rightarrow> byte list \<Rightarrow> int \<Rightarrow> fuzzer \<Rightarrow> stop \<times> fuzzer" where
  "fuzz e base_data iterations st =
     (case fuzz_loop e base_data [1..iterations] st of
        (r, st') \<Rightarrow>
          (let st1 = (case r of
                        Error err \<Rightarrow> st'\<lparr>log := log st' @ [FuzzingError err]\<rparr>
                      | _ \<Rightarrow> st');
               st2 = print_stats st1
           in (r, st2\<lparr>log := log st2 @ [FuzzingCompleted (crash_count st2)]\<rparr>)))"

text \<open>The fuzzer as \<^verbatim>\<open>__init__\<close> leaves it.\<close>

definition new_fuzzer :: "rng \<Rightarrow> fuzzer" where
  "new_fuzzer g =
     \<lparr>crash_count = 0, iteration_count = 0, rng_state = g, log = [], verdicts = [],
      crash_dirs = [], crash_records = []\<rparr>"

definition crashlike_verdicts :: "fuzzer \<Rightarrow> int" where
  "crashlike_verdicts st = int (length (filter snd (verdicts st)))"

text \<open>
  Environments in which the tool is judged CrashLike whatever it is given; in which every
  temporary file is written and every crash directory created; in which every crash
  record is written.
\<close>

definition always_crashlike :: "env \<Rightarrow> bool" where
  "always_crashlike e = (\<forall>i d. fst (run_7zip_test (tool e i d)))"

definition candidates_and_directories_written :: "env \<Rightarrow> bool" where
  "candidates_and_directories_written e =
     (\<forall>i. \<not> temp_write_fails e i \<and> \<not> makedirs_fails e i)"

definition records_written :: "env \<Rightarrow> bool" where
  "records_written e = (\<forall>i. \<not> record_write_fails e i)"

section \<open>Start-up\<close>

record args =
  base_zip :: string
  iterations :: int
  sevenzip_path :: "string option"

text \<open>The files on disk by path; \<^verbatim>\<open>os.path.exists(p)\<close> is \<open>files p \<noteq> None\<close>.\<close>

type_synonym files = "string \<Rightarrow> byte list option"

record config =
  base_zip_path :: string
  sevenzip :: string

definition win_path :: "string list \<Rightarrow> string" where
  "win_path parts = concat (butlast (concat (map (\<lambda>p. [p, [CHR 0x5C]]) parts)))"

definition possible_paths :: "string list" where
  "possible_paths =
     [win_path [''C:'', ''Program Files'', ''7-Zip'', ''7z.exe''],
      win_path [''C:'', ''Program Files (x86)'', ''7-Zip'', ''7z.exe''],
      win_path [''C:'', ''Program Files'', ''7-Zip'', ''7zG.exe''],
      win_path [''C:'', ''Program Files (x86)'', ''7-Zip'', ''7zG.exe'']]"

definition find_7zip :: "files \<Rightarrow> string option" where
  "find_7zip fs = find (\<lambda>p. fs p \<noteq> None) possible_paths"

text \<open>
  \<^verbatim>\<open>SevenZipFuzzer.__init__\<close>: \<open>Inl code\<close> is \<^verbatim>\<open>sys.exit(code)\<close>. The seed path is
  checked first, then the path of the tool.
\<close>

definition init :: "files \<Rightarrow> string \<Rightarrow> string option \<Rightarrow> int + config" where
  "init fs base sevenzip_arg =
     (let found = (case sevenzip_arg of
                     None \<Rightarrow> find_7zip fs
                   | Some p \<Rightarrow> if p = [] then find_7zip fs else Some p)
      in if fs base = None then Inl 1
         else case found of
                None \<Rightarrow> Inl 1
              | Some p \<Rightarrow> Inr \<lparr>base_zip_path = base, sevenzip = p\<rparr>)"

definition encode :: "string \<Rightarrow> byte list" where
  "encode s = map (\<lambda>c. of_nat (of_char c)) s"

text \<open>The entries that \<^verbatim>\<open>create_base_zip\<close> writes: name and content.\<close>

definition seed_entries :: "(string \<times> byte list) list" where
  "seed_entries =
     [(''normal_file.txt'',
         encode (concat (replicate 10 ''This is a normal text file for fuzzing''))),
      (''binary_data.bin'', map (\<lambda>i. of_nat (i mod 256)) [0..<1000]),
      (''empty_file.txt'', encode ''''),
      (''folder/nested_file.txt'', encode ''Nested file content''),
      (''very_long_name_'' @ replicate 100 (CHR ''x'') @ ''.txt'',
         encode ''File with long name'')]"

text \<open>
  \<^verbatim>\<open>create_base_zip\<close>. The bytes that the \<^verbatim>\<open>zipfile\<close> library writes for a list of
  entries are the parameter \<open>zipfile_bytes\<close>.
\<close>

definition create_base_zip ::
  "((string \<times> byte list) list \<Rightarrow> byte list) \<Rightarrow> files \<Rightarrow> string \<Rightarrow> files" where
  "create_base_zip zipfile_bytes fs path =
     (if fs path = None then fs(path \<mapsto> zipfile_bytes seed_entries) else fs)"

text \<open>
  \<^verbatim>\<open>main\<close>: the exit status, the files on disk and, when \<^verbatim>\<open>fuzz\<close> has run, its
  result. \<^verbatim>\<open>SystemExit\<close> is no \<^verbatim>\<open>Exception\<close>, so the \<^verbatim>\<open>sys.exit(1)\<close> of the
  constructor ends the process with status 1; a missing seed at \<^verbatim>\<open>open\<close> is
  \<^verbatim>\<open>FileNotFoundError\<close>, caught by \<^verbatim>\<open>except Exception\<close>, and \<^verbatim>\<open>main\<close> returns 1.
\<close>

definition main ::
  "((string \<times> byte list) list \<Rightarrow> byte list) \<Rightarrow> env \<Rightarrow> files \<Rightarrow> args \<Rightarrow> rng
     \<Rightarrow> int \<times> files \<times> (stop \<times> fuzzer) option" where
  "main zipfile_bytes e fs a g =
     (case init fs (base_zip a) (sevenzip_path a) of
        Inl code \<Rightarrow> (code, fs, None)
      | Inr cfg \<Rightarrow>
          (let fs1 = create_base_zip zipfile_bytes fs (base_zip_path cfg)
           in case fs1 (base_zip_path cfg) of
                None \<Rightarrow> (1, fs1, None)
              | Some base_data \<Rightarrow>
                  (0, fs1, Some (fuzz e base_data (iterations a) (new_fuzzer g)))))"

text \<open>
  Concrete inputs: an environment in which the tool always exits with code 2 and no file
  operation fails, and the smallest well-formed archive (an end-of-directory record with
  no entries, 22 bytes).
\<close>

definition crashing_env :: env where
  "crashing_env =
     \<lparr>tool = (\<lambda>i d. Completed \<lparr>returncode = 2, stdout = [], stderr = []\<rparr>),
      temp_write_fails = (\<lambda>i. False),
      makedirs_fails = (\<lambda>i. False),
      record_write_fails = (\<lambda>i. False)\<rparr>"

definition empty_archive :: "byte list" where
  "empty_archive =
     [0x50, 0x4B, 0x05, 0x06, 0, 0, 0, 0, 0, 0, 0, 0, 0, 0, 0, 0, 0, 0, 0, 0, 0, 0]"

section \<open>Mutation engine: every strategy keeps the length, and when it returns\<close>

lemma out_data_simps [simp]: "out_data (Return d g) = d" "out_data (Raise e d g) = d"
  by (simp_all add: out_data_def)

lemma returns_simps [simp]: "returns (Return d g)" "\<not> returns (Raise e d g)"
  by (simp_all add: returns_def)

lemma randint_ok:
  "a \<le> b \<Longrightarrow> \<exists>v. randint a b g = Inr (v, stl g) \<and> a \<le> v \<and> v \<le> b"
proof -
  assume ab: "a \<le> b"
  have lo: "0 \<le> int (shd g) mod (b - a + 1)"
    using ab pos_mod_sign [of "b - a + 1" "int (shd g)"] by linarith
  have hi: "int (shd g) mod (b - a + 1) \<le> b - a"
    using ab pos_mod_bound [of "b - a + 1" "int (shd g)"] by linarith
  have "randint a b g = Inr (a + int (shd g) mod (b - a + 1), stl g)"
    using ab by (simp add: randint_def)
  with lo hi show ?thesis by auto
qed

lemma randint_cases:
  assumes "a \<le> b"
  obtains v where "randint a b g = Inr (v, stl g)" "a \<le> v" "v \<le> b"
  using randint_ok [OF assms, of g] by blast

lemma setitem_ok:
  "0 \<le> i \<Longrightarrow> i < len data \<Longrightarrow> 0 \<le> v \<Longrightarrow> v \<le> 255 \<Longrightarrow>
     setitem data i v = Inr (data[nat i := word_of_int v])"
  by (simp add: setitem_def)

lemma getitem_ok:
  "0 \<le> i \<Longrightarrow> i < len data \<Longrightarrow> getitem data i = Inr (uint (data ! nat i))"
  by (simp add: getitem_def)

lemma len_update [simp]: "len (data[i := v]) = len data"
  by (simp add: len_def)

lemma and_255_range: "0 \<le> (x::int) AND 0xFF" "(x::int) AND 0xFF \<le> 255"
  by (simp_all add: AND_upper2')

lemma keepsD:
  assumes "length (out_data r) = n"
  shows "r = Return d g \<Longrightarrow> length d = n" and "r = Raise e d g \<Longrightarrow> length d = n"
  using assms by auto

declare local_headers_loop.simps [simp del] central_directory_loop.simps [simp del]
  compression_methods_loop.simps [simp del] crc_values_loop.simps [simp del]
  file_sizes_loop.simps [simp del]

subsection \<open>Local-header and central-directory corruption\<close>

lemma corrupt_header_bytes_keeps:
  "length (out_data (corrupt_header_bytes pct pos is data g)) = length data"
proof (induction "is" arbitrary: data g)
  case Nil
  then show ?case by simp
next
  case (Cons i "is")
  show ?case
    by (auto simp: Cons.IH split: prod.splits sum.splits dest: setitem_length)
qed

lemma corrupt_header_bytes_returns:
  "\<forall>i \<in> set is. 0 \<le> pos + i \<and> pos + i < len data \<Longrightarrow>
     returns (corrupt_header_bytes pct pos is data g)"
proof (induction "is" arbitrary: data g)
  case Nil
  then show ?case by simp
next
  case (Cons i "is")
  obtain hit g1 where r: "random_lt pct g = (hit, g1)" by (cases "random_lt pct g")
  obtain v where v: "randint 0 255 g1 = Inr (v, stl g1)" "0 \<le> v" "v \<le> 255"
    by (rule randint_cases [of 0 255 g1]) simp_all
  have s: "setitem data (pos + i) v = Inr (data[nat (pos + i) := word_of_int v])"
    using Cons.prems v by (simp add: setitem_ok)
  have next_ok: "\<forall>k \<in> set is. 0 \<le> pos + k \<and> pos + k < len (data[nat (pos + i) := w])" for w
    using Cons.prems by simp
  show ?case
    using r v s Cons.IH [OF next_ok] Cons.IH [of data g1] Cons.prems by simp
qed

lemma local_headers_loop_keeps:
  "length (out_data (local_headers_loop pos data g)) = length data"
proof (induction pos data g rule: local_headers_loop.induct)
  case (1 pos data g)
  show ?case
    using 1 corrupt_header_bytes_keeps [of 40 pos "[4..min 30 (len data - pos) - 1]" data g]
    by (subst local_headers_loop.simps) (auto simp: Let_def split: outcome.splits)
qed

lemma local_headers_loop_returns:
  "0 \<le> pos \<Longrightarrow> returns (local_headers_loop pos data g)"
proof (induction pos data g rule: local_headers_loop.induct)
  case (1 pos data g)
  let ?hs = "min 30 (len data - pos)"
  have inner: "returns (corrupt_header_bytes 40 pos [4..?hs - 1] data g)"
    using "1.prems" by (intro corrupt_header_bytes_returns) auto
  show ?case
    using 1 inner
    by (subst local_headers_loop.simps) (auto simp: Let_def split: outcome.splits)
qed

lemma central_directory_loop_keeps:
  "length (out_data (central_directory_loop pos data g)) = length data"
proof (induction pos data g rule: central_directory_loop.induct)
  case (1 pos data g)
  show ?case
    using 1 corrupt_header_bytes_keeps [of 30 pos "[4..min 46 (len data - pos) - 1]" data g]
    by (subst central_directory_loop.simps) (auto simp: Let_def split: outcome.splits)
qed

lemma central_directory_loop_returns:
  "0 \<le> pos \<Longrightarrow> returns (central_directory_loop pos data g)"
proof (induction pos data g rule: central_directory_loop.induct)
  case (1 pos data g)
  let ?hs = "min 46 (len data - pos)"
  have inner: "returns (corrupt_header_bytes 30 pos [4..?hs - 1] data g)"
    using "1.prems" by (intro corrupt_header_bytes_returns) auto
  show ?case
    using 1 inner
    by (subst central_directory_loop.simps) (auto simp: Let_def split: outcome.splits)
qed

subsection \<open>Compression-method mutation\<close>

lemma choice_ok: "xs \<noteq> [] \<Longrightarrow> \<exists>v. choice xs g = Inr (v, stl g) \<and> v \<in> set xs"
  by (simp add: choice_def)

lemma choice_cases:
  assumes "xs \<noteq> []"
  obtains v where "choice xs g = Inr (v, stl g)" "v \<in> set xs"
  using choice_ok [OF assms, of g] by blast

lemma method_codes_range: "v \<in> set method_codes \<Longrightarrow> 0 \<le> v \<and> v \<le> 255"
  by (auto simp: method_codes_def)

lemma for_signatures_keeps:
  assumes "\<And>s d g. length (out_data (scan s 0 d g)) = length d"
  shows "length (out_data (for_signatures scan sigs data g)) = length data"
proof (induction sigs arbitrary: data g)
  case Nil
  then show ?case by simp
next
  case (Cons s sigs)
  show ?case
    using assms [of s data g] Cons.IH by (auto split: outcome.splits)
qed

lemma for_signatures_returns:
  assumes "\<And>s d g. returns (scan s 0 d g)"
  shows "returns (for_signatures scan sigs data g)"
proof (induction sigs arbitrary: data g)
  case Nil
  then show ?case by simp
next
  case (Cons s sigs)
  show ?case
    using assms [of s data g] Cons.IH by (auto split: outcome.splits)
qed

lemma compression_methods_loop_keeps:
  "length (out_data (compression_methods_loop signature pos data g)) = length data"
proof (induction signature pos data g rule: compression_methods_loop.induct)
  case (1 signature pos data g)
  show ?case
    using 1
    by (subst compression_methods_loop.simps)
       (auto split: sum.splits prod.splits dest: setitem_length)
qed

lemma compression_methods_loop_returns:
  "0 \<le> pos \<Longrightarrow> returns (compression_methods_loop signature pos data g)"
proof (induction signature pos data g rule: compression_methods_loop.induct)
  case (1 signature pos data g)
  obtain v where v: "choice method_codes g = Inr (v, stl g)" "v \<in> set method_codes"
    by (rule choice_cases [of method_codes g]) (simp add: method_codes_def)
  have s: "pos + 8 < len data \<Longrightarrow>
      setitem data (pos + 8) v = Inr (data[nat (pos + 8) := word_of_int v])"
    using "1.prems" method_codes_range [OF v(2)] by (simp add: setitem_ok)
  show ?case
    using 1 v s by (subst compression_methods_loop.simps) auto
qed

lemma mutate_compression_methods_keeps:
  "length (out_data (mutate_compression_methods data g)) = length data"
  unfolding mutate_compression_methods_def
  by (rule for_signatures_keeps) (rule compression_methods_loop_keeps)

lemma mutate_compression_methods_returns:
  "returns (mutate_compression_methods data g)"
  unfolding mutate_compression_methods_def
  by (rule for_signatures_returns) (simp add: compression_methods_loop_returns)

subsection \<open>Checksum corruption\<close>

lemma store_random_bytes_keeps:
  "length (out_data (store_random_bytes base is data g)) = length data"
proof (induction "is" arbitrary: data g)
  case Nil
  then show ?case by simp
next
  case (Cons i "is")
  show ?case
    by (auto simp: Cons.IH split: prod.splits sum.splits dest: setitem_length)
qed

lemma store_random_bytes_returns:
  "\<forall>i \<in> set is. 0 \<le> base + i \<and> base + i < len data \<Longrightarrow>
     returns (store_random_bytes base is data g)"
proof (induction "is" arbitrary: data g)
  case Nil
  then show ?case by simp
next
  case (Cons i "is")
  obtain v where v: "randint 0 255 g = Inr (v, stl g)" "0 \<le> v" "v \<le> 255"
    by (rule randint_cases [of 0 255 g]) simp_all
  have s: "setitem data (base + i) v = Inr (data[nat (base + i) := word_of_int v])"
    using Cons.prems v by (simp add: setitem_ok)
  have next_ok: "\<forall>k \<in> set is. 0 \<le> base + k \<and> base + k < len (data[nat (base + i) := w])" for w
    using Cons.prems by simp
  show ?case
    using v s Cons.IH [OF next_ok] by simp
qed

lemma crc_values_loop_keeps:
  "length (out_data (crc_values_loop signature pos data g)) = length data"
proof (induction signature pos data g rule: crc_values_loop.induct)
  case (1 signature pos data g)
  show ?case
    using 1 store_random_bytes_keeps [of "pos + 14" "[0..3]" data g]
      store_random_bytes_keeps [of "pos + 16" "[0..3]" data g]
    by (subst crc_values_loop.simps) (auto simp: Let_def split: outcome.splits)
qed

lemma crc_values_loop_returns:
  "0 \<le> pos \<Longrightarrow> returns (crc_values_loop signature pos data g)"
proof (induction signature pos data g rule: crc_values_loop.induct)
  case (1 signature pos data g)
  have inner: "pos + c + 4 < len data \<Longrightarrow> 0 \<le> c \<Longrightarrow>
      returns (store_random_bytes (pos + c) [0..3] data g)" for c
    using "1.prems" by (intro store_random_bytes_returns) auto
  show ?case
    using 1 inner [of 14] inner [of 16]
    by (subst crc_values_loop.simps) (auto simp: Let_def split: outcome.splits)
qed

lemma corrupt_crc_values_keeps:
  "length (out_data (corrupt_crc_values data g)) = length data"
  unfolding corrupt_crc_values_def
  by (rule for_signatures_keeps) (rule crc_values_loop_keeps)

lemma corrupt_crc_values_returns: "returns (corrupt_crc_values data g)"
  unfolding corrupt_crc_values_def
  by (rule for_signatures_returns) (simp add: crc_values_loop_returns)

subsection \<open>Size-field corruption\<close>

lemma store_le_bytes_keeps:
  "length (out_data (store_le_bytes base value is data g)) = length data"
proof (induction "is" arbitrary: data)
  case Nil
  then show ?case by simp
next
  case (Cons i "is")
  show ?case
    by (auto simp: Cons.IH split: sum.splits dest: setitem_length)
qed

lemma store_le_bytes_returns:
  "\<forall>i \<in> set is. 0 \<le> base + i \<and> base + i < len data \<Longrightarrow>
     returns (store_le_bytes base value is data g)"
proof (induction "is" arbitrary: data)
  case Nil
  then show ?case by simp
next
  case (Cons i "is")
  have s: "setitem data (base + i) (drop_bit (nat (i * 8)) value AND 0xFF)
             = Inr (data[nat (base + i) := word_of_int (drop_bit (nat (i * 8)) value AND 0xFF)])"
    using Cons.prems by (intro setitem_ok) (simp_all add: and_255_range)
  have next_ok: "\<forall>k \<in> set is. 0 \<le> base + k \<and> base + k < len (data[nat (base + i) := w])" for w
    using Cons.prems by simp
  show ?case
    using s Cons.IH [OF next_ok] by simp
qed

lemma size_fields_keeps:
  "length (out_data (size_fields pos offsets data g)) = length data"
proof (induction offsets arbitrary: data g)
  case Nil
  then show ?case by simp
next
  case (Cons offset offsets)
  show ?case
    by (auto simp: Cons.IH split: sum.splits outcome.splits
          dest: keepsD [OF store_le_bytes_keeps])
qed

lemma size_fields_returns:
  "0 \<le> pos \<Longrightarrow> \<forall>offset \<in> set offsets. 0 \<le> offset \<Longrightarrow>
     returns (size_fields pos offsets data g)"
proof (induction offsets arbitrary: data g)
  case Nil
  then show ?case by simp
next
  case (Cons offset offsets)
  obtain v where v: "randint 0 0xFFFFFFFF g = Inr (v, stl g)"
    by (rule randint_cases [of 0 "0xFFFFFFFF" g]) simp_all
  have inner: "pos + offset + 4 < len data \<Longrightarrow>
      returns (store_le_bytes (pos + offset) v [0..3] data (stl g))"
    using Cons.prems by (intro store_le_bytes_returns) auto
  show ?case
    using v inner Cons.IH Cons.prems by (auto split: outcome.splits)
qed

lemma file_sizes_loop_keeps:
  "length (out_data (file_sizes_loop pos data g)) = length data"
proof (induction pos data g rule: file_sizes_loop.induct)
  case (1 pos data g)
  show ?case
    using 1 size_fields_keeps [of pos "[18, 22]" data g]
    by (subst file_sizes_loop.simps)
       (auto simp del: size_fields.simps split: outcome.splits)
qed

lemma file_sizes_loop_returns:
  "0 \<le> pos \<Longrightarrow> returns (file_sizes_loop pos data g)"
proof (induction pos data g rule: file_sizes_loop.induct)
  case (1 pos data g)
  have inner: "returns (size_fields pos [18, 22] data g)"
    using "1.prems" by (intro size_fields_returns) auto
  show ?case
    using 1 inner
    by (subst file_sizes_loop.simps)
       (auto simp del: size_fields.simps split: outcome.splits)
qed

subsection \<open>Header injection\<close>

lemma headers_length: "h \<in> set headers \<Longrightarrow> length h = 4"
  by (auto simp: headers_def local_sig_def central_sig_def)

lemma urandom_ok: "0 \<le> n \<Longrightarrow> \<exists>bs g'. urandom n g = Inr (bs, g') \<and> length bs = nat n"
  by (simp add: urandom_def)

lemma inject_random_headers_result:
  "\<exists>d g'. inject_random_headers data g = Return d g'
     \<and> length data \<le> length d \<and> length d \<le> length data + 104
     \<and> (len data < 5000 \<longrightarrow> length data + 14 \<le> length d)"
proof (cases "len data < 5000")
  case False
  then show ?thesis by (simp add: inject_random_headers_def)
next
  case True
  obtain h where h: "choice headers g = Inr (h, stl g)" "h \<in> set headers"
    by (rule choice_cases [of headers g]) (simp add: headers_def)
  obtain p where p: "randint 0 (len data) (stl g) = Inr (p, stl (stl g))" "0 \<le> p" "p \<le> len data"
    by (rule randint_cases [of 0 "len data" "stl g"]) (simp_all add: len_def)
  obtain n where n: "randint 10 100 (stl (stl g)) = Inr (n, stl (stl (stl g)))" "10 \<le> n" "n \<le> 100"
    by (rule randint_cases [of 10 100 "stl (stl g)"]) simp_all
  obtain bs g' where bs: "urandom n (stl (stl (stl g))) = Inr (bs, g')" "length bs = nat n"
    using urandom_ok [of n "stl (stl (stl g))"] n by auto
  have "inject_random_headers data g
          = Return (take (nat p) data @ (h @ bs) @ drop (nat p) data) g'"
    using True h p n bs by (simp add: inject_random_headers_def)
  moreover have "length (take (nat p) data @ (h @ bs) @ drop (nat p) data)
                   = length data + 4 + nat n"
  proof -
    have "nat p \<le> length data" using p by (simp add: len_def)
    then show ?thesis using bs headers_length [OF h(2)] by simp
  qed
  ultimately show ?thesis using n by auto
qed

subsection \<open>Bit flip\<close>

lemma xor_byte_range:
  assumes "0 \<le> k" "k \<le> 7"
  shows "0 \<le> uint (w::byte) XOR push_bit (nat k) 1" "uint w XOR push_bit (nat k) 1 \<le> 255"
proof -
  have "nat k \<le> 7" using assms by simp
  then have "(2::int) ^ nat k \<le> 2 ^ 7" by (intro power_increasing) simp_all
  then have m: "push_bit (nat k) (1::int) < 2 ^ 8" by (simp add: push_bit_eq_mult)
  have u: "uint w < 2 ^ 8" using uint_lt2p [of w] by simp
  show "0 \<le> uint w XOR push_bit (nat k) 1" by simp
  have "uint w XOR push_bit (nat k) 1 < 2 ^ 8"
    using u m by (intro XOR_upper) simp_all
  then show "uint w XOR push_bit (nat k) 1 \<le> 255" by simp
qed

lemma bit_flip_loop_keeps:
  "length (out_data (bit_flip_loop n data g)) = length data"
proof (induction n arbitrary: data g)
  case 0
  then show ?case by simp
next
  case (Suc n)
  show ?case
    by (auto simp: Suc.IH Let_def split: sum.splits dest: setitem_length)
qed

lemma bit_flip_loop_returns: "returns (bit_flip_loop n data g)"
proof (induction n arbitrary: data g)
  case 0
  then show ?case by simp
next
  case (Suc n)
  show ?case
  proof (cases "len data = 0")
    case True
    then show ?thesis by simp
  next
    case False
    then have pos_len: "0 \<le> len data - 1" by (simp add: len_def)
    obtain p where p: "randint 0 (len data - 1) g = Inr (p, stl g)" "0 \<le> p" "p \<le> len data - 1"
      by (rule randint_cases [OF pos_len, of g])
    obtain k where k: "randint 0 7 (stl g) = Inr (k, stl (stl g))" "0 \<le> k" "k \<le> 7"
      by (rule randint_cases [of 0 7 "stl g"]) simp_all
    have gi: "getitem data p = Inr (uint (data ! nat p))"
      using p by (simp add: getitem_ok)
    have si: "setitem data p (uint (data ! nat p) XOR push_bit (nat k) 1)
                = Inr (data[nat p := word_of_int (uint (data ! nat p) XOR push_bit (nat k) 1)])"
      using p xor_byte_range [OF k(2,3)] by (intro setitem_ok) simp_all
    show ?thesis
      using False p k gi si Suc.IH by simp
  qed
qed

lemma bit_flip_mutation_keeps:
  "length (out_data (bit_flip_mutation data g)) = length data"
  by (auto simp: bit_flip_mutation_def bit_flip_loop_keeps split: sum.splits)

lemma bit_flip_mutation_returns:
  "10 \<le> len data \<Longrightarrow> returns (bit_flip_mutation data g)"
proof -
  assume "10 \<le> len data"
  then have "1 \<le> min 100 (len data div 10)" by simp
  then obtain n where "randint 1 (min 100 (len data div 10)) g = Inr (n, stl g)"
    by (rule randint_cases)
  then show ?thesis by (simp add: bit_flip_mutation_def bit_flip_loop_returns)
qed

lemma bit_flip_mutation_short:
  "len data < 10 \<Longrightarrow> bit_flip_mutation data g = Raise ValueError data g"
  by (simp add: bit_flip_mutation_def randint_def)

subsection \<open>Boundary-value substitution\<close>

lemma raises_only_simps [simp]:
  "raises_only e (Return d g)" "raises_only e (Raise e' d g) = (e' = e)"
  by (simp_all add: raises_only_def)

lemma returns_raises_only: "returns r \<Longrightarrow> raises_only e r"
  by (cases r) simp_all

lemma boundary_values_nonempty: "boundary_values \<noteq> []"
  by (simp add: boundary_values_def)

lemma store_le_guarded_keeps:
  "length (out_data (store_le_guarded base value js data g)) = length data"
proof (induction js arbitrary: data)
  case Nil
  then show ?case by simp
next
  case (Cons j js)
  show ?case
    by (auto simp: Cons.IH split: sum.splits dest: setitem_length)
qed

lemma store_le_guarded_returns:
  "\<forall>j \<in> set js. 0 \<le> base + j \<Longrightarrow> returns (store_le_guarded base value js data g)"
proof (induction js arbitrary: data)
  case Nil
  then show ?case by simp
next
  case (Cons j js)
  have s: "base + j < len data \<Longrightarrow>
      setitem data (base + j) (drop_bit (nat (j * 8)) value AND 0xFF)
        = Inr (data[nat (base + j) := word_of_int (drop_bit (nat (j * 8)) value AND 0xFF)])"
    using Cons.prems by (intro setitem_ok) (simp_all add: and_255_range)
  show ?case
    using s Cons.IH Cons.prems by auto
qed

lemma boundary_run_keeps:
  "length (out_data (boundary_run pos length' is data g)) = length data"
proof (induction "is" arbitrary: data g)
  case Nil
  then show ?case by simp
next
  case (Cons i "is")
  show ?case
    by (auto simp: Cons.IH split: sum.splits outcome.splits
          dest: keepsD [OF store_le_guarded_keeps])
qed

lemma boundary_run_returns:
  "0 \<le> pos \<Longrightarrow> \<forall>i \<in> set is. 0 \<le> i \<Longrightarrow> returns (boundary_run pos length' is data g)"
proof (induction "is" arbitrary: data g)
  case Nil
  then show ?case by simp
next
  case (Cons i "is")
  obtain v where v: "choice boundary_values g = Inr (v, stl g)"
    by (rule choice_cases [OF boundary_values_nonempty, of g])
  have inner: "returns (store_le_guarded (pos + i) v [0..min 4 (length' - i) - 1] d (stl g))" for d
    using Cons.prems by (intro store_le_guarded_returns) auto
  show ?case
    using v inner [of data] Cons.IH Cons.prems by (auto split: outcome.splits)
qed

lemma boundary_loop_keeps:
  "length (out_data (boundary_loop n data g)) = length data"
proof (induction n arbitrary: data g)
  case 0
  then show ?case by simp
next
  case (Suc n)
  show ?case
    by (auto simp: Suc.IH Let_def boundary_run_keeps split: sum.splits prod.splits
          dest: setitem_length)
qed

lemma boundary_loop_raises_only:
  "0 < len data \<Longrightarrow> raises_only ValueError (boundary_loop n data g)"
proof (induction n arbitrary: data g)
  case 0
  then show ?case by simp
next
  case (Suc n)
  have pos_len: "0 \<le> len data - 1" using Suc.prems by simp
  obtain p where p: "randint 0 (len data - 1) g = Inr (p, stl g)" "0 \<le> p" "p \<le> len data - 1"
    by (rule randint_cases [OF pos_len, of g])
  obtain single g2 where r: "random_lt 30 (stl g) = (single, g2)"
    by (cases "random_lt 30 (stl g)")
  show ?case
  proof (cases single)
    case True
    obtain c where c: "choice boundary_values g2 = Inr (c, stl g2)"
      by (rule choice_cases [OF boundary_values_nonempty, of g2])
    have si: "setitem data p (c AND 0xFF) = Inr (data[nat p := word_of_int (c AND 0xFF)])"
      using p by (intro setitem_ok) (simp_all add: and_255_range)
    show ?thesis
      using True p r c si Suc.IH [of "data[nat p := word_of_int (c AND 0xFF)]"] Suc.prems
      by simp
  next
    case False
    show ?thesis
    proof (cases "2 \<le> min 8 (len data - p)")
      case True
      then obtain l where l: "randint 2 (min 8 (len data - p)) g2 = Inr (l, stl g2)" "2 \<le> l"
        by (rule randint_cases)
      have "returns (boundary_run p l [0..l - 1] data (stl g2))"
        using p by (intro boundary_run_returns) auto
      then show ?thesis
        using False p r l by (simp add: returns_raises_only)
    next
      case no_room: False
      then have "randint 2 (min 8 (len data - p)) g2 = Inl ValueError"
        by (simp add: randint_def)
      then show ?thesis
        using False p r by simp
    qed
  qed
qed

lemma boundary_value_mutation_keeps:
  "length (out_data (boundary_value_mutation data g)) = length data"
  by (auto simp: boundary_value_mutation_def boundary_loop_keeps split: sum.splits)

lemma boundary_value_mutation_raises_only:
  "raises_only ValueError (boundary_value_mutation data g)"
proof (cases "len data > 10")
  case False
  then show ?thesis by (simp add: boundary_value_mutation_def)
next
  case True
  obtain n where "randint 1 20 g = Inr (n, stl g)"
    by (rule randint_cases [of 1 20 g]) simp_all
  then show ?thesis
    using True by (simp add: boundary_value_mutation_def boundary_loop_raises_only)
qed

subsection \<open>Run-length corruption\<close>

lemma fill_pattern_keeps:
  "length (out_data (fill_pattern start_pos pattern is data g)) = length data"
proof (induction "is" arbitrary: data)
  case Nil
  then show ?case by simp
next
  case (Cons i "is")
  show ?case
    by (auto simp: Cons.IH split: sum.splits dest: setitem_length)
qed

lemma fill_pattern_returns:
  "0 \<le> pattern \<Longrightarrow> pattern \<le> 255 \<Longrightarrow> \<forall>i \<in> set is. 0 \<le> start_pos + i \<Longrightarrow>
     returns (fill_pattern start_pos pattern is data g)"
proof (induction "is" arbitrary: data)
  case Nil
  then show ?case by simp
next
  case (Cons i "is")
  have s: "start_pos + i < len data \<Longrightarrow>
      setitem data (start_pos + i) pattern = Inr (data[nat (start_pos + i) := word_of_int pattern])"
    using Cons.prems by (intro setitem_ok) simp_all
  show ?case
    using s Cons.IH Cons.prems by auto
qed

lemma repeat_byte_mutation_keeps:
  "length (out_data (repeat_byte_mutation data g)) = length data"
  by (auto simp: repeat_byte_mutation_def fill_pattern_keeps split: sum.splits)

lemma repeat_byte_mutation_returns: "returns (repeat_byte_mutation data g)"
proof (cases "len data > 20")
  case False
  then show ?thesis by (simp add: repeat_byte_mutation_def)
next
  case True
  obtain pat where pat: "randint 0 255 g = Inr (pat, stl g)" "0 \<le> pat" "pat \<le> 255"
    by (rule randint_cases [of 0 255 g]) simp_all
  have "0 \<le> len data - 10" using True by simp
  then obtain sp where sp: "randint 0 (len data - 10) (stl g) = Inr (sp, stl (stl g))"
      "0 \<le> sp" "sp \<le> len data - 10"
    by (rule randint_cases)
  have "5 \<le> min 50 (len data - sp)" using sp by simp
  then obtain l where l: "randint 5 (min 50 (len data - sp)) (stl (stl g)) = Inr (l, stl (stl (stl g)))"
    by (rule randint_cases)
  have "returns (fill_pattern sp pat [0..l - 1] data (stl (stl (stl g))))"
    using pat sp by (intro fill_pattern_returns) auto
  then show ?thesis
    using True pat sp l by (simp add: repeat_byte_mutation_def)
qed

subsection \<open>Arithmetic corruption\<close>

lemma arithmetic_mutation_keeps:
  "length (out_data (arithmetic_mutation data g)) = length data"
  by (auto simp: arithmetic_mutation_def Let_def split: sum.splits option.splits
        dest: setitem_length)

lemma arithmetic_mutation_returns: "returns (arithmetic_mutation data g)"
proof (cases "len data > 10")
  case False
  then show ?thesis by (simp add: arithmetic_mutation_def)
next
  case True
  then have pos_len: "0 \<le> len data - 1" by simp
  obtain p where p: "randint 0 (len data - 1) g = Inr (p, stl g)" "0 \<le> p" "p \<le> len data - 1"
    by (rule randint_cases [OF pos_len, of g])
  obtain op where op: "choice [''add'', ''sub'', ''mul''] (stl g) = Inr (op, stl (stl g))"
    by (rule choice_cases [of "[''add'', ''sub'', ''mul'']" "stl g"]) simp_all
  obtain v where v: "randint 1 255 (stl (stl g)) = Inr (v, stl (stl (stl g)))"
    by (rule randint_cases [of 1 255 "stl (stl g)"]) simp_all
  have gi: "getitem data p = Inr (uint (data ! nat p))"
    using p by (simp add: getitem_ok)
  have si: "setitem data p (x AND 0xFF) = Inr (data[nat p := word_of_int (x AND 0xFF)])" for x
    using p by (intro setitem_ok) (simp_all add: and_255_range)
  show ?thesis
    using True p op v gi si by (simp add: arithmetic_mutation_def Let_def)
qed

subsection \<open>The method byte of a header at offset 0\<close>



lemma prefix_kept:
  "0 \<le> pos \<Longrightarrow> n \<le> nat (pos + 8) \<Longrightarrow>
     take n (out_data (compression_methods_loop signature pos data g)) = take n data"
proof (induction signature pos data g rule: compression_methods_loop.induct)
  case (1 signature pos data g)
  show ?case
    using 1
    by (subst compression_methods_loop.simps)
       (auto simp: setitem_def Let_def split: sum.splits prod.splits if_splits)
qed

lemma first_pass:
  assumes "8 < len data" "slice data 0 4 = local_sig"
  shows "\<exists>v g1. v \<in> set method_codes \<and>
           compression_methods_loop local_sig 0 data g
             = compression_methods_loop local_sig 1 (data[8 := word_of_int v]) g1"
proof -
  obtain v where v: "choice method_codes g = Inr (v, stl g)" "v \<in> set method_codes"
    by (rule choice_cases [of method_codes g]) (simp add: method_codes_def)
  have s: "setitem data 8 v = Inr (data[8 := word_of_int v])"
    using assms method_codes_range [OF v(2)] setitem_ok [of 8 data v] by simp
  show ?thesis
    using assms v s by (subst compression_methods_loop.simps) auto
qed

lemma second_pass:
  assumes "8 < len data" "slice data 0 4 = local_sig"
  shows "compression_methods_loop central_sig 0 data g
           = compression_methods_loop central_sig 1 data g"
  using assms
  by (subst compression_methods_loop.simps) (simp add: local_sig_def central_sig_def)

lemma slice_0_4: "slice data 0 4 = take 4 data"
  by (simp add: slice_def)

lemma method_byte_set:
  "v \<in> set method_codes \<Longrightarrow> (word_of_int v :: byte) \<in> {0, 1, 8, 9, 12, 14, 96, 99, 255}"
  by (auto simp: method_codes_def)

lemma compression_method_at_8:
  assumes long: "8 < len data" and sig: "slice data 0 4 = local_sig"
  shows "\<exists>d g'. mutate_compression_methods data g = Return d g'
           \<and> length d = length data
           \<and> d ! 8 \<in> {0, 1, 8, 9, 12, 14, 96, 99, 255}
           \<and> take 8 d = take 8 data"
proof -
  obtain v g1 where v: "v \<in> set method_codes"
    and p1: "compression_methods_loop local_sig 0 data g
               = compression_methods_loop local_sig 1 (data[8 := word_of_int v]) g1"
    using first_pass [OF long sig, of g] by blast
  let ?d0 = "data[8 := word_of_int v]"
  obtain d1 g2 where r1: "compression_methods_loop local_sig 1 ?d0 g1 = Return d1 g2"
    using compression_methods_loop_returns [of 1 local_sig ?d0 g1]
    by (cases "compression_methods_loop local_sig 1 ?d0 g1") simp_all
  have l1: "length d1 = length data"
    using compression_methods_loop_keeps [of local_sig 1 ?d0 g1] r1 by simp
  have t1: "take 9 d1 = take 9 ?d0"
    using prefix_kept [of 1 9 local_sig ?d0 g1] r1 by simp
  have long1: "8 < len d1" using long l1 by (simp add: len_def)
  have "take 4 d1 = take 4 (take 9 d1)" by simp
  also have "\<dots> = take 4 data" unfolding t1 by simp
  finally have sig1: "slice d1 0 4 = local_sig"
    using sig by (simp add: slice_0_4)
  obtain d2 g3 where r2: "compression_methods_loop central_sig 1 d1 g2 = Return d2 g3"
    using compression_methods_loop_returns [of 1 central_sig d1 g2]
    by (cases "compression_methods_loop central_sig 1 d1 g2") simp_all
  have l2: "length d2 = length data"
    using compression_methods_loop_keeps [of central_sig 1 d1 g2] r2 l1 by simp
  have t2: "take 9 d2 = take 9 d1"
    using prefix_kept [of 1 9 central_sig d1 g2] r2 by simp
  have t9: "take 9 d2 = take 9 ?d0" using t1 t2 by simp
  have res: "mutate_compression_methods data g = Return d2 g3"
    using p1 r1 r2 second_pass [OF long1 sig1, of g2]
    by (simp add: mutate_compression_methods_def)
  have "d2 ! 8 = take 9 d2 ! 8" by simp
  also have "\<dots> = ?d0 ! 8" unfolding t9 by simp
  also have "\<dots> = word_of_int v" using long by (simp add: len_def)
  finally have b8: "d2 ! 8 \<in> {0, 1, 8, 9, 12, 14, 96, 99, 255}"
    using method_byte_set [OF v] by simp
  have "take 8 d2 = take 8 (take 9 d2)" by simp
  also have "\<dots> = take 8 data" unfolding t9 by simp
  finally have "take 8 d2 = take 8 data" .
  with res l2 b8 show ?thesis by blast
qed

subsection \<open>Strategy selection\<close>

lemma strategy_keeps:
  "mutation_type \<noteq> 6 \<Longrightarrow> length (out_data (strategy mutation_type data g)) = length data"
  by (simp add: strategy_def corrupt_local_headers_def corrupt_central_directory_def
        mutate_file_sizes_def local_headers_loop_keeps central_directory_loop_keeps
        mutate_compression_methods_keeps corrupt_crc_values_keeps file_sizes_loop_keeps
        bit_flip_mutation_keeps boundary_value_mutation_keeps repeat_byte_mutation_keeps
        arithmetic_mutation_keeps)

lemma strategy_grows:
  "length data \<le> length (out_data (strategy mutation_type data g))
   \<and> length (out_data (strategy mutation_type data g)) \<le> length data + 104"
proof (cases "mutation_type = 6")
  case True
  then show ?thesis
    using inject_random_headers_result [of data g] by (auto simp: strategy_def)
next
  case False
  then show ?thesis by (simp add: strategy_keeps)
qed

lemma strategy_returns:
  "mutation_type \<noteq> 8 \<Longrightarrow> mutation_type \<noteq> 7 \<or> 10 \<le> len data \<Longrightarrow>
     returns (strategy mutation_type data g)"
  using inject_random_headers_result [of data g]
  by (auto simp: strategy_def corrupt_local_headers_def corrupt_central_directory_def
        mutate_file_sizes_def local_headers_loop_returns central_directory_loop_returns
        mutate_compression_methods_returns corrupt_crc_values_returns file_sizes_loop_returns
        bit_flip_mutation_returns repeat_byte_mutation_returns arithmetic_mutation_returns)

lemma strategy_raised_length:
  "strategy mutation_type data g = Raise e d g' \<Longrightarrow> length d = length data"
proof -
  assume r: "strategy mutation_type data g = Raise e d g'"
  have "mutation_type \<noteq> 6"
    using r inject_random_headers_result [of data g] by (auto simp: strategy_def)
  then show ?thesis using strategy_keeps [of mutation_type data g] r by simp
qed

lemma mutate_zip_structure_returns:
  assumes "len data = 0 \<or> 10 \<le> len data"
  shows "returns (fst (mutate_zip_structure data g))"
proof (cases "len data = 0")
  case True
  then show ?thesis by (simp add: mutate_zip_structure_def)
next
  case False
  then have long: "10 \<le> len data" using assms by simp
  obtain t where t: "randint 1 10 g = Inr (t, stl g)"
    by (rule randint_cases [of 1 10 g]) simp_all
  show ?thesis
  proof (cases "strategy t data (stl g)")
    case (Return d g')
    then show ?thesis using False t by (simp add: mutate_zip_structure_def)
  next
    case (Raise e d g')
    then have "len d = len data" using strategy_raised_length by (simp add: len_def)
    then have "returns (bit_flip_mutation d g')"
      using long by (simp add: bit_flip_mutation_returns)
    then show ?thesis using False t Raise by (simp add: mutate_zip_structure_def)
  qed
qed

lemma mutate_zip_structure_length:
  "length data \<le> length (out_data (fst (mutate_zip_structure data g)))
   \<and> length (out_data (fst (mutate_zip_structure data g))) \<le> length data + 104"
proof (cases "len data = 0")
  case True
  then show ?thesis by (simp add: mutate_zip_structure_def)
next
  case False
  obtain t where t: "randint 1 10 g = Inr (t, stl g)"
    by (rule randint_cases [of 1 10 g]) simp_all
  show ?thesis
  proof (cases "strategy t data (stl g)")
    case (Return d g')
    then show ?thesis
      using False t strategy_grows [of data t "stl g"] by (simp add: mutate_zip_structure_def)
  next
    case (Raise e d g')
    then have "length d = length data" by (rule strategy_raised_length)
    then show ?thesis
      using False t Raise bit_flip_mutation_keeps [of d g']
      by (simp add: mutate_zip_structure_def)
  qed
qed

subsection \<open>Bit flips\<close>

lemma length_flip_bits [simp]: "length (flip_bits flips data) = length data"
  by (induction flips data rule: flip_bits.induct) simp_all










section \<open>Fuzzing loop: the crash counter\<close>

lemma save_crash_count:
  "save_crash e i d p st = (r, st') \<Longrightarrow>
     crash_count st' = crash_count st + 1 \<and> verdicts st' = verdicts st
     \<and> iteration_count st' = iteration_count st"
  by (auto simp: save_crash_def Let_def split: if_splits)

lemma iteration_invariant:
  assumes inv: "crash_count st = crashlike_verdicts st" and below: "crash_count st < 50"
    and it: "iteration e base_data i st = (r, st')"
  shows "crash_count st' = crashlike_verdicts st' \<and> crash_count st' \<le> 50
         \<and> (r = None \<longrightarrow> crash_count st' < 50) \<and> (50 \<le> crash_count st' \<longrightarrow> r \<noteq> None)"
proof (cases "mutate_zip_structure base_data (rng_state st)")
  case (Pair out msgs)
  show ?thesis
  proof (cases out)
    case (Raise err d g')
    then show ?thesis
      using Pair inv below it by (auto simp: iteration_def crashlike_verdicts_def)
  next
    case (Return mutated_data g')
    show ?thesis
    proof (cases "temp_write_fails e i")
      case True
      then show ?thesis
        using Pair Return inv below it by (auto simp: iteration_def crashlike_verdicts_def)
    next
      case False
      obtain crash_detected process_result
        where t: "run_7zip_test (tool e i mutated_data) = (crash_detected, process_result)"
        by (cases "run_7zip_test (tool e i mutated_data)")
      let ?st3 = "st\<lparr>iteration_count := i, rng_state := g', log := log st @ msgs,
                      log := (log st @ msgs) @ run_7zip_test_log i (tool e i mutated_data),
                      verdicts := verdicts st @ [(i, crash_detected)]\<rparr>"
      show ?thesis
      proof (cases crash_detected)
        case no_crash: False
        then show ?thesis
          using Pair Return False t inv below it
          by (auto simp: iteration_def crashlike_verdicts_def print_stats_def Let_def
                split: if_splits)
      next
        case crash: True
        obtain r4 st4 where s: "save_crash e i mutated_data process_result ?st3 = (r4, st4)"
          by (cases "save_crash e i mutated_data process_result ?st3")
        have c4: "crash_count st4 = crash_count st + 1"
          and v4: "verdicts st4 = verdicts st @ [(i, True)]"
          using save_crash_count [OF s] crash by simp_all
        show ?thesis
          using Pair Return False t crash s c4 v4 inv below it
          by (cases r4)
             (auto simp: iteration_def crashlike_verdicts_def print_stats_def Let_def
                split: if_splits)
      qed
    qed
  qed
qed

lemma fuzz_loop_invariant:
  assumes "crash_count st = crashlike_verdicts st" "crash_count st < 50"
    and "fuzz_loop e base_data is st = (r, st')"
  shows "crash_count st' = crashlike_verdicts st' \<and> crash_count st' \<le> 50
         \<and> (50 \<le> crash_count st' \<longrightarrow> r \<noteq> Completed_all)"
  using assms
proof (induction "is" arbitrary: st)
  case Nil
  then show ?case by simp
next
  case (Cons i "is")
  obtain r1 st1 where it: "iteration e base_data i st = (r1, st1)"
    by (cases "iteration e base_data i st")
  note inv = iteration_invariant [OF Cons.prems(1,2) it]
  show ?case
  proof (cases r1)
    case None
    then have "fuzz_loop e base_data is st1 = (r, st')"
      using Cons.prems(3) it by simp
    moreover have "crash_count st1 < 50" using inv None by simp
    ultimately show ?thesis using Cons.IH [of st1] inv by simp
  next
    case (Some s)
    then have "r = s" "st' = st1" using Cons.prems(3) it by simp_all
    moreover have "s \<noteq> Completed_all"
      using it Some
      by (auto simp: iteration_def Let_def split: prod.splits outcome.splits if_splits option.splits)
    ultimately show ?thesis using inv by simp
  qed
qed

lemma iteration_crash:
  assumes crash: "always_crashlike e" and io: "candidates_and_directories_written e"
    and seed: "len base_data = 0 \<or> 10 \<le> len base_data"
  shows "\<exists>st'. iteration e base_data i st
                 = (if 50 \<le> crash_count st + 1 then Some EarlyLimit else None, st')
           \<and> crash_count st' = crash_count st + 1
           \<and> iteration_count st' = i
           \<and> length (crash_dirs st') = length (crash_dirs st) + 1
           \<and> length (crash_records st')
               = length (crash_records st) + (if record_write_fails e i then 0 else 1)"
proof -
  obtain out msgs where m: "mutate_zip_structure base_data (rng_state st) = (out, msgs)"
    by (cases "mutate_zip_structure base_data (rng_state st)")
  have "returns out"
    using mutate_zip_structure_returns [OF seed, of "rng_state st"] m by simp
  then obtain d g' where out: "out = Return d g'" by (cases out) simp_all
  obtain p where t: "run_7zip_test (tool e i d) = (True, p)"
    using crash unfolding always_crashlike_def
    by (metis (full_types) fstI surj_pair)
  have f: "\<not> temp_write_fails e i" "\<not> makedirs_fails e i"
    using io by (simp_all add: candidates_and_directories_written_def)
  show ?thesis
    using m out t f
    by (cases "record_write_fails e i")
       (simp_all add: iteration_def save_crash_def print_stats_def Let_def)
qed

lemma fuzz_loop_crash:
  assumes crash: "always_crashlike e" and io: "candidates_and_directories_written e"
    and seed: "len base_data = 0 \<or> 10 \<le> len base_data"
  shows "crash_count st = int c \<Longrightarrow> length (crash_dirs st) = c \<Longrightarrow> c < 50 \<Longrightarrow>
         50 - c \<le> length is \<Longrightarrow>
         \<exists>st'. fuzz_loop e base_data is st = (EarlyLimit, st')
            \<and> crash_count st' = 50 \<and> iteration_count st' = is ! (49 - c)
            \<and> length (crash_dirs st') = 50
            \<and> length (crash_records st')
                = length (crash_records st)
                  + length (filter (\<lambda>i. \<not> record_write_fails e i) (take (50 - c) is))"
proof (induction "is" arbitrary: st c)
  case Nil
  then show ?case by simp
next
  case (Cons i "is")
  obtain st1 where it: "iteration e base_data i st
                          = (if 50 \<le> crash_count st + 1 then Some EarlyLimit else None, st1)"
    and c1: "crash_count st1 = crash_count st + 1" "iteration_count st1 = i"
      "length (crash_dirs st1) = length (crash_dirs st) + 1"
      "length (crash_records st1)
         = length (crash_records st) + (if record_write_fails e i then 0 else 1)"
    using iteration_crash [OF crash io seed, of i st] by blast
  show ?case
  proof (cases "c = 49")
    case True
    then show ?thesis using it c1 Cons.prems by simp
  next
    case False
    then have lt: "Suc c < 50" using Cons.prems(3) by simp
    have step: "fuzz_loop e base_data (i # is) st = fuzz_loop e base_data is st1"
      using it lt Cons.prems(1) by simp
    have "\<exists>st'. fuzz_loop e base_data is st1 = (EarlyLimit, st')
            \<and> crash_count st' = 50 \<and> iteration_count st' = is ! (49 - Suc c)
            \<and> length (crash_dirs st') = 50
            \<and> length (crash_records st')
                = length (crash_records st1)
                  + length (filter (\<lambda>i. \<not> record_write_fails e i) (take (50 - Suc c) is))"
      using c1 Cons.prems lt by (intro Cons.IH) simp_all
    moreover have "(i # is) ! (49 - c) = is ! (49 - Suc c)"
      using lt by (simp add: nth_Cons')
    moreover have "take (50 - c) (i # is) = i # take (50 - Suc c) is"
      using lt by (simp add: take_Cons')
    ultimately show ?thesis using step c1(4) by auto
  qed
qed

lemma take_50_upto: "50 \<le> n \<Longrightarrow> take 50 [1..n] = [1..50]"
proof -
  assume "50 \<le> n"
  then have "[1..n] = [1..50] @ [51..n]"
    using upto_split2 [of 1 50 n] by simp
  then show ?thesis by simp
qed

lemma upto_1_nth_49: "50 \<le> n \<Longrightarrow> [1..n] ! 49 = 50"
  by (simp add: nth_upto)

lemma new_fuzzer_invariant:
  "crash_count (new_fuzzer g) = crashlike_verdicts (new_fuzzer g)"
  by (simp add: new_fuzzer_def crashlike_verdicts_def)

lemma fuzz_counts:
  "fuzz e base_data budget st = (r, st') \<Longrightarrow>
     \<exists>st1. fuzz_loop e base_data [1..budget] st = (r, st1)
       \<and> crash_count st' = crash_count st1 \<and> verdicts st' = verdicts st1
       \<and> iteration_count st' = iteration_count st1
       \<and> crash_records st' = crash_records st1 \<and> crash_dirs st' = crash_dirs st1"
  by (auto simp: fuzz_def print_stats_def Let_def split: prod.splits stop.splits)

lemma save_crash_write_failure:
  "\<not> makedirs_fails e i \<Longrightarrow> record_write_fails e i \<Longrightarrow>
     save_crash e i d p st
       = (None, st\<lparr>crash_count := crash_count st + 1,
                     crash_dirs := crash_dirs st @ [i],
                     log := log st @ [ErrorSavingCrash OSError]\<rparr>)"
  by (simp add: save_crash_def)

section \<open>Mutation engine: properties\<close>

text \<open>
  Claim C9. On the empty buffer \<^verbatim>\<open>mutate_zip_structure\<close> returns the empty buffer
  at once: no strategy is drawn, no byte is read or written, nothing is raised and
  nothing is logged, whatever the random state.
\<close>

theorem mutate_empty_buffer_unchanged:
  "mutate_zip_structure [] g = (Return [] g, [])"
  by (simp add: mutate_zip_structure_def len_def)

text \<open>
  Claim C1, at a failing input. On the one-byte buffer \<^verbatim>\<open>b'A'\<close>, when
  \<^verbatim>\<open>random.randint(1, 10)\<close> draws 7, the bit-flip strategy raises \<^verbatim>\<open>ValueError\<close>
  (\<^verbatim>\<open>random.randint(1, 0)\<close>); the handler logs the failure and calls the bit-flip
  strategy again, which raises again, and this exception reaches the caller.
\<close>

theorem mutate_raises_on_one_byte_buffer:
  "mutate_zip_structure [0x41] (6 ## sconst 0)
     = (Raise ValueError [0x41] (sconst 0), [MutationFailed ValueError])"
  by (simp add: mutate_zip_structure_def len_def randint_def strategy_def
        bit_flip_mutation_def)

text \<open>
  Claim C7. Whatever a strategy returns is at most 110 bytes longer than its input, and
  no longer than its input when the strategy is not header injection (type 6); what
  \<^verbatim>\<open>mutate_zip_structure\<close> returns is at most 110 bytes longer than its input.
\<close>

theorem output_length_at_most_input_plus_110:
  "(strategy mutation_type data g = Return d g' \<longrightarrow>
      length d \<le> length data + 110 \<and> (mutation_type \<noteq> 6 \<longrightarrow> length d \<le> length data))
   \<and> (fst (mutate_zip_structure data g) = Return d2 g2 \<longrightarrow> length d2 \<le> length data + 110)"
proof -
  have a: "length d \<le> length data + 110" if "strategy mutation_type data g = Return d g'"
    using that strategy_grows [of data mutation_type g] by simp
  have b: "length d \<le> length data"
    if "strategy mutation_type data g = Return d g'" "mutation_type \<noteq> 6"
    using that strategy_keeps [of mutation_type data g] by simp
  have c: "length d2 \<le> length data + 110" if "fst (mutate_zip_structure data g) = Return d2 g2"
    using that mutate_zip_structure_length [of data g] by simp
  from a b c show ?thesis by blast
qed

theorem output_length_at_most_input_plus_110_witness:
  "strategy 10 [1, 2, 3] (sconst 0) = Return [1, 2, 3] (sconst 0)
   \<and> length [1, 2, 3 :: byte] \<le> length [1, 2, 3 :: byte] + 110
   \<and> (\<exists>d g'. strategy 6 [1, 2, 3] (sconst 0) = Return d g'
         \<and> length [1, 2, 3 :: byte] + 14 \<le> length d \<and> length d \<le> length [1, 2, 3 :: byte] + 110)
   \<and> (\<exists>d2 g2. fst (mutate_zip_structure [1, 2, 3] (5 ## sconst 0)) = Return d2 g2
         \<and> length d2 \<le> length [1, 2, 3 :: byte] + 110)"
proof -
  have r10: "strategy 10 [1, 2, 3] (sconst 0) = Return [1, 2, 3] (sconst 0)"
    by (simp add: strategy_def arithmetic_mutation_def len_def)
  obtain d g' where r6: "strategy 6 [1, 2, 3] (sconst 0) = Return d g'"
    and grow: "length [1, 2, 3 :: byte] + 14 \<le> length d"
    using inject_random_headers_result [of "[1, 2, 3]" "sconst 0"]
    by (auto simp: strategy_def len_def)
  have m: "fst (mutate_zip_structure [1, 2, 3] (5 ## sconst 0)) = Return d g'"
    using r6 by (simp add: mutate_zip_structure_def len_def randint_def)
  show ?thesis
    using r10 r6 grow m
      output_length_at_most_input_plus_110 [of 6 "[1, 2, 3]" "sconst 0" d g' d g']
      output_length_at_most_input_plus_110 [of 6 "[1, 2, 3]" "5 ## sconst 0" d g' d g']
    by auto
qed

text \<open>
  Claim C8. On a 200-byte buffer whose only local-entry-header signature is at offset 0,
  the compression-method strategy returns a buffer of 200 bytes whose byte at offset 8
  is one of the nine method codes and whose first eight bytes are those of the input.
  (The proof needs the signature at offset 0 and a length above 8 only.)
\<close>

theorem compression_method_byte_8_and_prefix:
  assumes "length data = 200" and "local_header_offsets data = [0]"
  shows "\<exists>d g'. mutate_compression_methods data g = Return d g'
           \<and> length d = 200
           \<and> d ! 8 \<in> {0, 1, 8, 9, 12, 14, 96, 99, 255}
           \<and> take 8 d = take 8 data"
proof -
  have "0 \<in> set (local_header_offsets data)" using assms(2) by simp
  then have sig: "slice data 0 4 = local_sig"
    by (simp add: local_header_offsets_def)
  have long: "8 < len data" using assms(1) by (simp add: len_def)
  show ?thesis
    using compression_method_at_8 [OF long sig, of g] assms(1) by auto
qed

theorem compression_method_byte_8_and_prefix_witness:
  "length ([0x50, 0x4B, 0x03, 0x04] @ replicate 196 (0::byte)) = 200
   \<and> local_header_offsets ([0x50, 0x4B, 0x03, 0x04] @ replicate 196 0) = [0]
   \<and> (\<exists>d g'. mutate_compression_methods ([0x50, 0x4B, 0x03, 0x04] @ replicate 196 0) (sconst 0)
                   = Return d g'
         \<and> length d = 200
         \<and> d ! 8 \<in> {0, 1, 8, 9, 12, 14, 96, 99, 255}
         \<and> take 8 d = [0x50, 0x4B, 0x03, 0x04, 0, 0, 0, 0])"
proof -
  have l: "length ([0x50, 0x4B, 0x03, 0x04] @ replicate 196 (0::byte)) = 200" by simp
  have o: "local_header_offsets ([0x50, 0x4B, 0x03, 0x04] @ replicate 196 0) = [0]"
    by code_simp
  have t: "take 8 ([0x50, 0x4B, 0x03, 0x04] @ replicate 196 (0::byte))
             = [0x50, 0x4B, 0x03, 0x04, 0, 0, 0, 0]"
    by code_simp
  show ?thesis
    using compression_method_byte_8_and_prefix [OF l o, of "sconst 0"] l o
    unfolding t by simp
qed

text \<open>
  Claim C10, at failing inputs. On the one-byte buffer \<^verbatim>\<open>b'A'\<close> the bit-flip
  strategy (type 7) returns no buffer: \<^verbatim>\<open>random.randint(1, min(100, 1 // 10))\<close> raises
  \<^verbatim>\<open>ValueError\<close>. On eleven zero bytes the boundary-value strategy (type 8) returns
  no buffer when it draws the last position for a multi-byte run:
  \<^verbatim>\<open>random.randint(2, min(8, 1))\<close> raises \<^verbatim>\<open>ValueError\<close>.
\<close>

theorem bit_flip_and_boundary_raise:
  "strategy 7 [0x41] (sconst 0) = Raise ValueError [0x41] (sconst 0)
   \<and> strategy 8 (replicate 11 0) (0 ## 10 ## 50 ## sconst 0)
         = Raise ValueError (replicate 11 0) (sconst 0)"
  by (simp add: strategy_def bit_flip_mutation_def boundary_value_mutation_def len_def
        randint_def random_lt_def)




section \<open>Oracle adapter: properties\<close>

text \<open>
  Claim C5. Whenever the tool completes with exit code 2 or 8, the classifier answers
  CrashLike whatever the captured output is, and the verdict comes with the process
  result; a timeout is CrashLike and comes with no process result.
\<close>

theorem exit_code_2_8_and_timeout_crashlike:
  "(returncode p = 2 \<or> returncode p = 8 \<longrightarrow>
      analyze_7zip_result (Some p) \<and> run_7zip_test (Completed p) = (True, Some p))
   \<and> run_7zip_test TimeoutExpired = (True, None)"
  by (simp add: analyze_7zip_result_def run_7zip_test_def)

theorem exit_code_2_8_and_timeout_crashlike_witness:
  "analyze_7zip_result (Some \<lparr>returncode = 2, stdout = ''Everything is Ok'', stderr = ''''\<rparr>)
   \<and> run_7zip_test (Completed \<lparr>returncode = 8, stdout = '''', stderr = ''''\<rparr>)
       = (True, Some \<lparr>returncode = 8, stdout = '''', stderr = ''''\<rparr>)
   \<and> run_7zip_test TimeoutExpired = (True, None)"
  using exit_code_2_8_and_timeout_crashlike
          [of "\<lparr>returncode = 2, stdout = ''Everything is Ok'', stderr = ''''\<rparr>"]
        exit_code_2_8_and_timeout_crashlike
          [of "\<lparr>returncode = 8, stdout = '''', stderr = ''''\<rparr>"]
  by simp

section \<open>Fuzzing loop: properties\<close>

text \<open>
  Claim C4, as amended. In every run of \<^verbatim>\<open>fuzz\<close> on a fresh fuzzer the crash counter
  ends equal to the number of CrashLike verdicts observed, it never exceeds 50, and a run
  whose counter has reached 50 has not gone through its whole budget. When the tool is
  judged CrashLike at every iteration, every temporary file is written and every crash
  directory created, the seed is empty or has at least 10 bytes and the budget is at
  least 50, the loop is left by the early stop at iteration 50 with the counter at 50 and
  50 crash directories; the crash records written in full are those of the iterations
  1 to 50 at which no write of the record failed, so 50 when no such write fails.
\<close>

theorem early_stop_at_50_crashes:
  assumes run: "fuzz e base_data budget (new_fuzzer g) = (r, st')"
  shows "crash_count st' = crashlike_verdicts st' \<and> crash_count st' \<le> 50
         \<and> (50 \<le> crash_count st' \<longrightarrow> r \<noteq> Completed_all)
         \<and> (always_crashlike e \<and> candidates_and_directories_written e
              \<and> (len base_data = 0 \<or> 10 \<le> len base_data) \<and> 50 \<le> budget \<longrightarrow>
                r = EarlyLimit \<and> crash_count st' = 50 \<and> iteration_count st' = 50
                \<and> length (crash_dirs st') = 50
                \<and> length (crash_records st')
                    = length (filter (\<lambda>i. \<not> record_write_fails e i) [1..50])
                \<and> (records_written e \<longrightarrow> length (crash_records st') = 50))"
proof -
  obtain st1 where l: "fuzz_loop e base_data [1..budget] (new_fuzzer g) = (r, st1)"
    and same: "crash_count st' = crash_count st1" "verdicts st' = verdicts st1"
      "iteration_count st' = iteration_count st1"
      "crash_records st' = crash_records st1" "crash_dirs st' = crash_dirs st1"
    using fuzz_counts [OF run] by blast
  have general: "crash_count st' = crashlike_verdicts st' \<and> crash_count st' \<le> 50
         \<and> (50 \<le> crash_count st' \<longrightarrow> r \<noteq> Completed_all)"
    using fuzz_loop_invariant [OF new_fuzzer_invariant _ l] same
    by (simp add: new_fuzzer_def crashlike_verdicts_def)
  have scenario: "r = EarlyLimit \<and> crash_count st' = 50 \<and> iteration_count st' = 50
                \<and> length (crash_dirs st') = 50
                \<and> length (crash_records st')
                    = length (filter (\<lambda>i. \<not> record_write_fails e i) [1..50])
                \<and> (records_written e \<longrightarrow> length (crash_records st') = 50)"
    if h: "always_crashlike e" "candidates_and_directories_written e"
      "len base_data = 0 \<or> 10 \<le> len base_data" "50 \<le> budget"
  proof -
    have "\<exists>st2. fuzz_loop e base_data [1..budget] (new_fuzzer g) = (EarlyLimit, st2)
            \<and> crash_count st2 = 50 \<and> iteration_count st2 = [1..budget] ! (49 - 0)
            \<and> length (crash_dirs st2) = 50
            \<and> length (crash_records st2)
                = length (crash_records (new_fuzzer g))
                  + length (filter (\<lambda>i. \<not> record_write_fails e i) (take (50 - 0) [1..budget]))"
      using h(4) by (intro fuzz_loop_crash [OF h(1,2,3)]) (simp_all add: new_fuzzer_def)
    then have main: "r = EarlyLimit \<and> crash_count st' = 50 \<and> iteration_count st' = 50
                \<and> length (crash_dirs st') = 50
                \<and> length (crash_records st')
                    = length (filter (\<lambda>i. \<not> record_write_fails e i) [1..50])"
      using l same upto_1_nth_49 [OF h(4)] take_50_upto [OF h(4)]
      by (auto simp: new_fuzzer_def)
    moreover have "filter (\<lambda>i. \<not> record_write_fails e i) [1..50] = [1..50]"
      if "records_written e"
      using that by (simp add: records_written_def)
    ultimately show ?thesis by simp
  qed
  from general scenario show ?thesis by blast
qed

theorem early_stop_at_50_crashes_witness:
  "always_crashlike crashing_env \<and> candidates_and_directories_written crashing_env
   \<and> records_written crashing_env \<and> 10 \<le> len empty_archive
   \<and> fst (fuzz crashing_env empty_archive 60 (new_fuzzer (sconst 0))) = EarlyLimit
   \<and> crash_count (snd (fuzz crashing_env empty_archive 60 (new_fuzzer (sconst 0)))) = 50
   \<and> crashlike_verdicts (snd (fuzz crashing_env empty_archive 60 (new_fuzzer (sconst 0)))) = 50
   \<and> iteration_count (snd (fuzz crashing_env empty_archive 60 (new_fuzzer (sconst 0)))) = 50
   \<and> length (crash_dirs (snd (fuzz crashing_env empty_archive 60 (new_fuzzer (sconst 0))))) = 50
   \<and> length (crash_records (snd (fuzz crashing_env empty_archive 60 (new_fuzzer (sconst 0)))))
       = 50"
proof -
  have a: "always_crashlike crashing_env"
    by (simp add: always_crashlike_def crashing_env_def run_7zip_test_def
          analyze_7zip_result_def)
  have b: "candidates_and_directories_written crashing_env"
    by (simp add: candidates_and_directories_written_def crashing_env_def)
  have c: "records_written crashing_env"
    by (simp add: records_written_def crashing_env_def)
  have d: "10 \<le> len empty_archive"
    by (simp add: len_def empty_archive_def)
  have run: "fuzz crashing_env empty_archive 60 (new_fuzzer (sconst 0))
               = (fst (fuzz crashing_env empty_archive 60 (new_fuzzer (sconst 0))),
                  snd (fuzz crashing_env empty_archive 60 (new_fuzzer (sconst 0))))"
    by simp
  show ?thesis
    using early_stop_at_50_crashes [OF run] a b c d by simp
qed

text \<open>
  Claim C4 as stated fails: the tool exits with code 2 whenever it runs and the budget
  is 60, but writing the temporary file of iteration 3 fails. The \<^verbatim>\<open>OSError\<close> is
  caught by the \<^verbatim>\<open>except Exception\<close> of \<^verbatim>\<open>fuzz\<close>, which ends the loop: the run stops
  at iteration 3 with the crash counter at 2 and two crash records, not at 50.
\<close>

theorem temp_file_failure_stops_before_50_counterexample:
  "fuzz (crashing_env\<lparr>temp_write_fails := (\<lambda>i. i = 3)\<rparr>) empty_archive 60
        (new_fuzzer (sconst 0))
     = (Error OSError,
        \<lparr>crash_count = 2, iteration_count = 3, rng_state = sconst 0,
         log = [CrashDetected 1, Progress 1 1, CrashDetected 2, Progress 2 2,
                FuzzingError OSError, Progress 3 2, FuzzingCompleted 2],
         verdicts = [(1, True), (2, True)], crash_dirs = [1, 2],
         crash_records =
           [(1, empty_archive, Some \<lparr>returncode = 2, stdout = [], stderr = []\<rparr>),
            (2, empty_archive, Some \<lparr>returncode = 2, stdout = [], stderr = []\<rparr>)]\<rparr>)"
  by (simp add: fuzz_def upto.simps crashing_env_def new_fuzzer_def iteration_def
        mutate_zip_structure_def strategy_def corrupt_local_headers_def
        local_headers_loop.simps slice_def local_sig_def empty_archive_def len_def
        randint_def run_7zip_test_def analyze_7zip_result_def save_crash_def
        print_stats_def run_7zip_test_log_def)

text \<open>
  Claim C6, at a failing input. The tool exits with code 2 at iteration 1 and
  \<^verbatim>\<open>os.makedirs(crash_dir)\<close> fails. \<^verbatim>\<open>save_crash\<close> has incremented the counter, but
  the \<^verbatim>\<open>OSError\<close> leaves it (the call stands before its \<^verbatim>\<open>try\<close>) and is caught by
  \<^verbatim>\<open>fuzz\<close>, which logs a fuzzing error and ends the loop: of a budget of 3 iterations
  only the first has run.
\<close>

theorem crash_dir_failure_ends_the_loop:
  "fuzz (crashing_env\<lparr>makedirs_fails := (\<lambda>i. True)\<rparr>) [] 3 (new_fuzzer (sconst 0))
     = (Error OSError,
        \<lparr>crash_count = 1, iteration_count = 1, rng_state = sconst 0,
         log = [FuzzingError OSError, Progress 1 1, FuzzingCompleted 1],
         verdicts = [(1, True)], crash_dirs = [], crash_records = []\<rparr>)"
  by (simp add: fuzz_def upto.simps crashing_env_def new_fuzzer_def iteration_def
        mutate_zip_structure_def len_def run_7zip_test_def analyze_7zip_result_def
        save_crash_def print_stats_def run_7zip_test_log_def)

section \<open>Start-up: properties\<close>

lemma main_missing_seed:
  "fs (base_zip a) = None \<Longrightarrow> main zipfile_bytes e fs a g = (1, fs, None)"
  by (simp add: main_def init_def)

lemma create_base_zip_absent:
  "fs path = None \<Longrightarrow>
     create_base_zip zipfile_bytes fs path = fs(path \<mapsto> zipfile_bytes seed_entries)"
  by (simp add: create_base_zip_def)

text \<open>
  Claim C2, at a failing input. No file is on disk and the path of the tool is given.
  The constructor finds the seed path missing and calls \<^verbatim>\<open>sys.exit(1)\<close> before
  \<^verbatim>\<open>main\<close> reaches \<^verbatim>\<open>create_base_zip\<close>: the process ends with status 1, no seed
  archive has been written and \<^verbatim>\<open>fuzz\<close> has not run.
\<close>

theorem missing_seed_exits_before_synthesis:
  "main (\<lambda>entries. []) crashing_env Map.empty
     \<lparr>base_zip = ''seed.zip'', iterations = 10, sevenzip_path = Some ''7z.exe''\<rparr> (sconst 0)
     = (1, Map.empty, None)"
  by (simp add: main_def init_def)

end
